theory Spec2Isabelle
  imports Main
begin

section \<open>Data model of \<^verbatim>\<open>tables.cpp\<close>\<close>

text \<open>
  Every cell of a table is a \<^verbatim>\<open>shared_ptr<CBase>\<close> and an embedded table is a
  \<^verbatim>\<open>shared_ptr<CTable>\<close>, so objects are kept in an explicit store and referred to by
  address. An address is the position of the object in the store; allocation appends.
  A \<^verbatim>\<open>shared_ptr\<close> stored in a grid or in a \<^verbatim>\<open>CTableCell\<close> is never null and keeps its
  target alive, so dereferencing is written as indexing into the store.
\<close>

type_synonym addr = nat

datatype FormatingType = ALIGN_LEFT | ALIGN_RIGHT

datatype CBase =
    CEmpty
  | CText (allLines: "string list") (formatType: FormatingType)
  | CImage (imageData: "string list")
  | CTableCell (tableContent: addr)

record CTable =
  Rows :: nat
  Cols :: nat
  Cells :: "addr list list"

record heap =
  objs :: "CBase list"
  tbls :: "CTable list"

text \<open>
  What a call can do other than return: throw \<^verbatim>\<open>std::length_error\<close> (a string
  constructor asked for more than \<^verbatim>\<open>max_size()\<close> characters), throw
  \<^verbatim>\<open>std::bad_cast\<close> (a failed \<^verbatim>\<open>dynamic_cast\<close> to a reference), index a vector out of
  range with \<^verbatim>\<open>operator[]\<close> (no check, undefined behaviour), or not return
  (the fuel of the model has run out).
\<close>

datatype fault = length_error | bad_cast | undefined_behaviour | out_of_fuel

definition is_exception :: "fault \<Rightarrow> bool" where
  "is_exception e = (e = length_error \<or> e = bad_cast)"

primrec mapF :: "('a \<Rightarrow> fault + 'b) \<Rightarrow> 'a list \<Rightarrow> fault + 'b list" where
  "mapF f [] = Inr []"
| "mapF f (x # xs) =
     (case f x of
        Inl e \<Rightarrow> Inl e
      | Inr y \<Rightarrow> (case mapF f xs of Inl e \<Rightarrow> Inl e | Inr ys \<Rightarrow> Inr (y # ys)))"

section \<open>Strings and streams\<close>

abbreviation newline :: char where
  "newline \<equiv> CHR 0x0A"

abbreviation space :: char where
  "space \<equiv> CHR 0x20"

text \<open>
  \<^verbatim>\<open>while (std::getline(iss, line)) ...\<close>: the lines the loop sees. \<open>cur\<close> is the line
  being read. At the end of the input a non-empty pending line is still delivered; an
  empty one is not (the extraction fails).
\<close>

fun getline_loop :: "string \<Rightarrow> string \<Rightarrow> string list" where
  "getline_loop cur [] = (if cur = [] then [] else [cur])"
| "getline_loop cur (c # cs) =
     (if c = newline then cur # getline_loop [] cs else getline_loop (cur @ [c]) cs)"

definition getlines :: "string \<Rightarrow> string list" where
  "getlines text = getline_loop [] text"

text \<open>\<^verbatim>\<open>s.replace(pos, len, str)\<close> for \<open>pos \<le> size s\<close>; \<open>len\<close> is clipped to the end.\<close>

definition string_replace :: "string \<Rightarrow> nat \<Rightarrow> nat \<Rightarrow> string \<Rightarrow> string" where
  "string_replace s pos len str = take pos s @ str @ drop (pos + len) s"

section \<open>CEmpty\<close>

definition CEmpty_Output :: "nat \<Rightarrow> nat \<Rightarrow> string list" where
  "CEmpty_Output height width = replicate height (replicate width space)"

section \<open>CText\<close>

definition setText :: "string \<Rightarrow> string list" where
  "setText text = getlines text"

definition CText_ctor :: "string \<Rightarrow> FormatingType \<Rightarrow> CBase" where
  "CText_ctor text format = CText (setText text) format"

definition CText_Width :: "string list \<Rightarrow> nat" where
  "CText_Width lines = foldl (\<lambda>maxWidth line. max maxWidth (length line)) 0 lines"

definition CText_Height :: "string list \<Rightarrow> nat" where
  "CText_Height lines = length lines"

text \<open>
  \<^verbatim>\<open>string(width - line.size(), ' ')\<close> is computed in \<^verbatim>\<open>size_t\<close>: when the line is longer
  than \<open>width\<close> the difference wraps to a count above \<^verbatim>\<open>max_size()\<close> and the constructor
  throws \<^verbatim>\<open>std::length_error\<close>.
\<close>

definition CText_line :: "string list \<Rightarrow> FormatingType \<Rightarrow> nat \<Rightarrow> nat \<Rightarrow> fault + string" where
  "CText_line lines format width i =
     (let line = (if i < length lines then lines ! i else [])
      in if width < length line then Inl length_error
         else if format = ALIGN_LEFT then Inr (line @ replicate (width - length line) space)
         else Inr (replicate (width - length line) space @ line))"

definition CText_Output :: "string list \<Rightarrow> FormatingType \<Rightarrow> nat \<Rightarrow> nat \<Rightarrow> fault + string list" where
  "CText_Output lines format height width = mapF (CText_line lines format width) [0..<height]"

section \<open>CImage\<close>

definition addRow :: "string list \<Rightarrow> string \<Rightarrow> string list" where
  "addRow rows row = rows @ [row]"

definition CImage_Width :: "string list \<Rightarrow> nat" where
  "CImage_Width rows = (case rows of [] \<Rightarrow> 0 | r # _ \<Rightarrow> length r)"

definition CImage_Height :: "string list \<Rightarrow> nat" where
  "CImage_Height rows = length rows"

definition CImage_put :: "string \<Rightarrow> nat \<Rightarrow> nat \<Rightarrow> string \<Rightarrow> string" where
  "CImage_put canvasLine offsetX width imgLine =
     (if offsetX + length imgLine > width
      then string_replace canvasLine offsetX (width - offsetX) (take (width - offsetX) imgLine)
      else string_replace canvasLine offsetX (length imgLine) imgLine)"

function CImage_loop ::
  "string list \<Rightarrow> nat \<Rightarrow> nat \<Rightarrow> nat \<Rightarrow> nat \<Rightarrow> nat \<Rightarrow> string list \<Rightarrow> string list" where
  "CImage_loop rows offsetY offsetX height width i out =
     (if i < length rows \<and> i + offsetY < height
      then CImage_loop rows offsetY offsetX height width (Suc i)
             (out[i + offsetY := CImage_put (out ! (i + offsetY)) offsetX width (rows ! i)])
      else out)"
  by pat_completeness auto
termination
  by (relation "measure (\<lambda>(rows, offsetY, offsetX, height, width, i, out). length rows - i)") auto

declare CImage_loop.simps [simp del]

definition CImage_Output :: "string list \<Rightarrow> nat \<Rightarrow> nat \<Rightarrow> string list" where
  "CImage_Output rows height width =
     (let out = replicate height (replicate width space)
      in if rows = [] \<or> height = 0 \<or> width = 0 then out
         else
           let imgHeight = length rows;
               imgWidth = length (rows ! 0);
               offsetY = (if height > imgHeight then (height - imgHeight) div 2 else 0);
               offsetX = (if width > imgWidth then (width - imgWidth) div 2 else 0)
           in CImage_loop rows offsetY offsetX height width 0 out)"

section \<open>CTableCell: measuring and fitting a rendered table\<close>

definition CTableCell_Width :: "string \<Rightarrow> nat" where
  "CTableCell_Width content =
     foldl (\<lambda>maxWidth line. max maxWidth (length line)) 0 (getlines content)"

definition CTableCell_Height :: "string \<Rightarrow> nat" where
  "CTableCell_Height content =
     count_list content newline + (if content = [] \<or> last content = newline then 0 else 1)"

fun CTableCell_fill :: "string list \<Rightarrow> nat \<Rightarrow> nat \<Rightarrow> string list \<Rightarrow> string list" where
  "CTableCell_fill [] height width result = result"
| "CTableCell_fill (line # rest) height width result =
     (if length result < height
      then CTableCell_fill rest height width
             (result @ [if length line > width then take width line
                        else line @ replicate (width - length line) space])
      else result)"

definition CTableCell_Output :: "string \<Rightarrow> nat \<Rightarrow> nat \<Rightarrow> string list" where
  "CTableCell_Output content height width =
     (let result = CTableCell_fill (getlines content) height width []
      in result @ replicate (height - length result) (replicate width space))"

section \<open>CTable: rendering\<close>

text \<open>
  The first loop nest of \<^verbatim>\<open>operator<<\<close>: \<open>W\<close> and \<open>H\<close> hold the natural width and height
  of every cell. Each entry of \<^verbatim>\<open>maxColWidths\<close> and \<^verbatim>\<open>maxRowHeights\<close> starts at zero and
  takes the maximum along its column or row.
\<close>

definition maxColWidths :: "nat \<Rightarrow> nat \<Rightarrow> nat list list \<Rightarrow> nat list" where
  "maxColWidths rows cols W =
     map (\<lambda>c. foldl (\<lambda>m r. max m (W ! r ! c)) 0 [0..<rows]) [0..<cols]"

definition maxRowHeights :: "nat \<Rightarrow> nat \<Rightarrow> nat list list \<Rightarrow> nat list" where
  "maxRowHeights rows cols H =
     map (\<lambda>r. foldl (\<lambda>m c. max m (H ! r ! c)) 0 [0..<cols]) [0..<rows]"

definition printBorder :: "nat \<Rightarrow> nat list \<Rightarrow> string" where
  "printBorder cols colWidths =
     ''+'' @ concat (map (\<lambda>col. replicate (colWidths ! col) CHR ''-'' @ ''+'') [0..<cols])
       @ [newline]"

definition printLine :: "nat \<Rightarrow> string list list \<Rightarrow> nat \<Rightarrow> string" where
  "printLine cols OutputRow vertical =
     ''|'' @ concat (map (\<lambda>col. OutputRow ! col ! vertical @ ''|'') [0..<cols]) @ [newline]"

definition printRow :: "nat \<Rightarrow> nat list \<Rightarrow> nat \<Rightarrow> string list list \<Rightarrow> string" where
  "printRow cols colWidths rowHeight OutputRow =
     concat (map (printLine cols OutputRow) [0..<rowHeight]) @ printBorder cols colWidths"

text \<open>
  The const member functions read the object graph below an address. Their mutual
  recursion (a \<^verbatim>\<open>CTableCell\<close> renders its table, a table measures its cells) is bounded by
  fuel: one unit for each nested call.
\<close>

fun Width :: "nat \<Rightarrow> heap \<Rightarrow> addr \<Rightarrow> fault + nat"
  and Height :: "nat \<Rightarrow> heap \<Rightarrow> addr \<Rightarrow> fault + nat"
  and Output :: "nat \<Rightarrow> heap \<Rightarrow> addr \<Rightarrow> nat \<Rightarrow> nat \<Rightarrow> fault + string list"
  and render :: "nat \<Rightarrow> heap \<Rightarrow> addr \<Rightarrow> fault + string" where
  "Width 0 h a = Inl out_of_fuel"
| "Width (Suc n) h a =
     (case objs h ! a of
        CEmpty \<Rightarrow> Inr 0
      | CText lines format \<Rightarrow> Inr (CText_Width lines)
      | CImage rows \<Rightarrow> Inr (CImage_Width rows)
      | CTableCell p \<Rightarrow>
          (case render n h p of Inl e \<Rightarrow> Inl e | Inr s \<Rightarrow> Inr (CTableCell_Width s)))"
| "Height 0 h a = Inl out_of_fuel"
| "Height (Suc n) h a =
     (case objs h ! a of
        CEmpty \<Rightarrow> Inr 0
      | CText lines format \<Rightarrow> Inr (CText_Height lines)
      | CImage rows \<Rightarrow> Inr (CImage_Height rows)
      | CTableCell p \<Rightarrow>
          (case render n h p of Inl e \<Rightarrow> Inl e | Inr s \<Rightarrow> Inr (CTableCell_Height s)))"
| "Output 0 h a height width = Inl out_of_fuel"
| "Output (Suc n) h a height width =
     (case objs h ! a of
        CEmpty \<Rightarrow> Inr (CEmpty_Output height width)
      | CText lines format \<Rightarrow> CText_Output lines format height width
      | CImage rows \<Rightarrow> Inr (CImage_Output rows height width)
      | CTableCell p \<Rightarrow>
          (case render n h p of
             Inl e \<Rightarrow> Inl e
           | Inr s \<Rightarrow> Inr (CTableCell_Output s height width)))"
| "render 0 h t = Inl out_of_fuel"
| "render (Suc n) h t =
     (let table = tbls h ! t
      in case mapF (\<lambda>r. mapF (\<lambda>c. Width n h (Cells table ! r ! c)) [0..<Cols table])
                [0..<Rows table] of
           Inl e \<Rightarrow> Inl e
         | Inr W \<Rightarrow>
        (case mapF (\<lambda>r. mapF (\<lambda>c. Height n h (Cells table ! r ! c)) [0..<Cols table])
                [0..<Rows table] of
           Inl e \<Rightarrow> Inl e
         | Inr H \<Rightarrow>
        (let colWidths = maxColWidths (Rows table) (Cols table) W;
             rowHeights = maxRowHeights (Rows table) (Cols table) H
         in case mapF (\<lambda>r. mapF (\<lambda>c. Output n h (Cells table ! r ! c)
                                       (rowHeights ! r) (colWidths ! c)) [0..<Cols table])
                   [0..<Rows table] of
              Inl e \<Rightarrow> Inl e
            | Inr Out \<Rightarrow>
                Inr (printBorder (Cols table) colWidths
                     @ concat (map (\<lambda>r. printRow (Cols table) colWidths (rowHeights ! r)
                                           (Out ! r)) [0..<Rows table])))))"

section \<open>Equality\<close>

primrec allF :: "('a \<Rightarrow> fault + bool) \<Rightarrow> 'a list \<Rightarrow> fault + bool" where
  "allF f [] = Inr True"
| "allF f (x # xs) =
     (case f x of
        Inl e \<Rightarrow> Inl e
      | Inr b \<Rightarrow> if b then allF f xs else Inr False)"

text \<open>
  \<^verbatim>\<open>CBase::operator==\<close> on the objects at two addresses and \<^verbatim>\<open>CTable::operator==\<close> on
  the tables at two addresses. The table loop returns at the first pair that differs.
\<close>

fun CBase_eq :: "nat \<Rightarrow> heap \<Rightarrow> addr \<Rightarrow> addr \<Rightarrow> fault + bool"
  and CTable_eq :: "nat \<Rightarrow> heap \<Rightarrow> addr \<Rightarrow> addr \<Rightarrow> fault + bool" where
  "CBase_eq 0 h a b = Inl out_of_fuel"
| "CBase_eq (Suc n) h a b =
     (case objs h ! a of
        CEmpty \<Rightarrow> Inr (case objs h ! b of CEmpty \<Rightarrow> True | _ \<Rightarrow> False)
      | CText lines format \<Rightarrow>
          Inr (case objs h ! b of
                 CText lines' format' \<Rightarrow> lines = lines' \<and> format = format'
               | _ \<Rightarrow> False)
      | CImage rows \<Rightarrow>
          Inr (case objs h ! b of CImage rows' \<Rightarrow> rows = rows' | _ \<Rightarrow> False)
      | CTableCell p \<Rightarrow>
          (case objs h ! b of CTableCell q \<Rightarrow> CTable_eq n h p q | _ \<Rightarrow> Inr False))"
| "CTable_eq 0 h t u = Inl out_of_fuel"
| "CTable_eq (Suc n) h t u =
     (let this = tbls h ! t; other = tbls h ! u
      in if Rows this \<noteq> Rows other \<or> Cols this \<noteq> Cols other then Inr False
         else allF (\<lambda>(r, c). CBase_eq n h (Cells this ! r ! c) (Cells other ! r ! c))
                (List.product [0..<Rows this] [0..<Cols this]))"

section \<open>Allocation, cloning and construction\<close>

text \<open>\<^verbatim>\<open>std::make_shared<...>(x)\<close>: a new object, a copy of \<open>x\<close>, at a fresh address.\<close>

definition new_obj :: "heap \<Rightarrow> CBase \<Rightarrow> heap \<times> addr" where
  "new_obj h x = (h\<lparr>objs := objs h @ [x]\<rparr>, length (objs h))"

definition new_table :: "heap \<Rightarrow> CTable \<Rightarrow> heap \<times> addr" where
  "new_table h T = (h\<lparr>tbls := tbls h @ [T]\<rparr>, length (tbls h))"

text \<open>
  \<^verbatim>\<open>Clone\<close> of the object at an address: every variant is
  \<^verbatim>\<open>std::make_shared<C>(*this)\<close> with the implicit copy constructor, which copies the
  line vectors and, for a \<^verbatim>\<open>CTableCell\<close>, the \<^verbatim>\<open>shared_ptr\<close> to the embedded table.
\<close>

definition Clone :: "heap \<Rightarrow> addr \<Rightarrow> heap \<times> addr" where
  "Clone h a = new_obj h (objs h ! a)"

fun clone_cells :: "heap \<Rightarrow> addr list \<Rightarrow> heap \<times> addr list" where
  "clone_cells h [] = (h, [])"
| "clone_cells h (a # as) =
     (case Clone h a of (h1, a') \<Rightarrow>
        (case clone_cells h1 as of (h2, as') \<Rightarrow> (h2, a' # as')))"

fun clone_grid :: "heap \<Rightarrow> addr list list \<Rightarrow> heap \<times> addr list list" where
  "clone_grid h [] = (h, [])"
| "clone_grid h (row # rows) =
     (case clone_cells h row of (h1, row') \<Rightarrow>
        (case clone_grid h1 rows of (h2, rows') \<Rightarrow> (h2, row' # rows')))"

fun empty_cells :: "heap \<Rightarrow> nat \<Rightarrow> heap \<times> addr list" where
  "empty_cells h 0 = (h, [])"
| "empty_cells h (Suc n) =
     (case new_obj h CEmpty of (h1, a) \<Rightarrow>
        (case empty_cells h1 n of (h2, as) \<Rightarrow> (h2, a # as)))"

fun empty_grid :: "heap \<Rightarrow> nat \<Rightarrow> nat \<Rightarrow> heap \<times> addr list list" where
  "empty_grid h 0 cols = (h, [])"
| "empty_grid h (Suc n) cols =
     (case empty_cells h cols of (h1, row) \<Rightarrow>
        (case empty_grid h1 n cols of (h2, rows) \<Rightarrow> (h2, row # rows)))"

text \<open>The addresses \<^verbatim>\<open>Cells[rows][cols]\<close> visited by the loops over \<open>Rows\<close> and \<open>Cols\<close>.\<close>

definition grid_addrs :: "CTable \<Rightarrow> addr list list" where
  "grid_addrs T = map (\<lambda>r. map (\<lambda>c. Cells T ! r ! c) [0..<Cols T]) [0..<Rows T]"

definition CTable_ctor :: "heap \<Rightarrow> nat \<Rightarrow> nat \<Rightarrow> heap \<times> addr" where
  "CTable_ctor h rows cols =
     (case empty_grid h rows cols of (h1, g) \<Rightarrow>
        new_table h1 \<lparr>Rows = rows, Cols = cols, Cells = g\<rparr>)"

definition CTable_copy :: "heap \<Rightarrow> addr \<Rightarrow> heap \<times> addr" where
  "CTable_copy h other =
     (let T = tbls h ! other
      in case clone_grid h (grid_addrs T) of (h1, g) \<Rightarrow>
           new_table h1 \<lparr>Rows = Rows T, Cols = Cols T, Cells = g\<rparr>)"

definition CTableCell_ctor :: "heap \<Rightarrow> addr \<Rightarrow> heap \<times> addr" where
  "CTableCell_ctor h table =
     (case CTable_copy h table of (h1, p) \<Rightarrow> new_obj h1 (CTableCell p))"

section \<open>CTable: access and mutation\<close>

definition in_range :: "CTable \<Rightarrow> nat \<Rightarrow> nat \<Rightarrow> bool" where
  "in_range T row col = (row < length (Cells T) \<and> col < length (Cells T ! row))"

definition getCell :: "heap \<Rightarrow> addr \<Rightarrow> nat \<Rightarrow> nat \<Rightarrow> fault + addr" where
  "getCell h t row col =
     (let T = tbls h ! t
      in if in_range T row col then Inr (Cells T ! row ! col) else Inl undefined_behaviour)"

definition store_cell :: "heap \<Rightarrow> addr \<Rightarrow> nat \<Rightarrow> nat \<Rightarrow> addr \<Rightarrow> heap" where
  "store_cell h t row col a =
     (let T = tbls h ! t
      in h\<lparr>tbls := (tbls h)[t := T\<lparr>Cells := (Cells T)[row := (Cells T ! row)[col := a]]\<rparr>]\<rparr>)"

definition setCell :: "heap \<Rightarrow> addr \<Rightarrow> nat \<Rightarrow> nat \<Rightarrow> addr \<Rightarrow> fault + heap" where
  "setCell h t row col cell =
     (case Clone h cell of (h1, a) \<Rightarrow>
        if in_range (tbls h1 ! t) row col then Inr (store_cell h1 t row col a)
        else Inl undefined_behaviour)"

definition setCell_table :: "heap \<Rightarrow> addr \<Rightarrow> nat \<Rightarrow> nat \<Rightarrow> addr \<Rightarrow> fault + heap" where
  "setCell_table h t row col cell =
     (case CTableCell_ctor h cell of (h1, a) \<Rightarrow>
        if in_range (tbls h1 ! t) row col then Inr (store_cell h1 t row col a)
        else Inl undefined_behaviour)"

definition CTable_assign :: "heap \<Rightarrow> addr \<Rightarrow> addr \<Rightarrow> heap" where
  "CTable_assign h this other =
     (if other \<noteq> this
      then (let T = tbls h ! other
            in case clone_grid h (grid_addrs T) of (h1, g) \<Rightarrow>
                 h1\<lparr>tbls := (tbls h1)[this := \<lparr>Rows = Rows T, Cols = Cols T, Cells = g\<rparr>]\<rparr>)
      else h)"

text \<open>
  Mutation of a cell in place, as the callers do it:
  \<^verbatim>\<open>dynamic_cast<CText &>(t.getCell(r, c)).setText(text)\<close> and the same for
  \<^verbatim>\<open>CImage::addRow\<close>. The cast throws when the object is of another class.
\<close>

definition setText_at :: "heap \<Rightarrow> addr \<Rightarrow> string \<Rightarrow> fault + heap" where
  "setText_at h a text =
     (case objs h ! a of
        CText lines format \<Rightarrow> Inr (h\<lparr>objs := (objs h)[a := CText (setText text) format]\<rparr>)
      | _ \<Rightarrow> Inl bad_cast)"

definition addRow_at :: "heap \<Rightarrow> addr \<Rightarrow> string \<Rightarrow> fault + heap" where
  "addRow_at h a row =
     (case objs h ! a of
        CImage rows \<Rightarrow> Inr (h\<lparr>objs := (objs h)[a := CImage (addRow rows row)]\<rparr>)
      | _ \<Rightarrow> Inl bad_cast)"

definition CText_pad :: "string list \<Rightarrow> FormatingType \<Rightarrow> nat \<Rightarrow> nat \<Rightarrow> string" where
  "CText_pad lines format width i =
     (let line = (if i < length lines then lines ! i else [])
      in if format = ALIGN_LEFT then line @ replicate (width - length line) space
         else replicate (width - length line) space @ line)"

definition layout ::
  "CTable \<Rightarrow> (addr \<Rightarrow> fault + nat) \<Rightarrow> (addr \<Rightarrow> fault + nat)
     \<Rightarrow> (addr \<Rightarrow> nat \<Rightarrow> nat \<Rightarrow> fault + string list) \<Rightarrow> fault + string" where
  "layout table width_of height_of output_of =
     (case mapF (\<lambda>r. mapF (\<lambda>c. width_of (Cells table ! r ! c)) [0..<Cols table])
                [0..<Rows table] of
           Inl e \<Rightarrow> Inl e
         | Inr W \<Rightarrow>
        (case mapF (\<lambda>r. mapF (\<lambda>c. height_of (Cells table ! r ! c)) [0..<Cols table])
                [0..<Rows table] of
           Inl e \<Rightarrow> Inl e
         | Inr H \<Rightarrow>
        (let colWidths = maxColWidths (Rows table) (Cols table) W;
             rowHeights = maxRowHeights (Rows table) (Cols table) H
         in case mapF (\<lambda>r. mapF (\<lambda>c. output_of (Cells table ! r ! c)
                                       (rowHeights ! r) (colWidths ! c)) [0..<Cols table])
                   [0..<Rows table] of
              Inl e \<Rightarrow> Inl e
            | Inr Out \<Rightarrow>
                Inr (printBorder (Cols table) colWidths
                     @ concat (map (\<lambda>r. printRow (Cols table) colWidths (rowHeights ! r)
                                           (Out ! r)) [0..<Rows table])))))"

definition spec_border :: "nat \<Rightarrow> (nat \<Rightarrow> nat) \<Rightarrow> string" where
  "spec_border C colWidth =
     ''+'' @ concat (map (\<lambda>c. replicate (colWidth c) CHR ''-'' @ ''+'') [0..<C])"

definition spec_content_line :: "nat \<Rightarrow> (nat \<Rightarrow> string) \<Rightarrow> string" where
  "spec_content_line C piece = ''|'' @ concat (map (\<lambda>c. piece c @ ''|'') [0..<C])"

definition spec_lines ::
  "nat \<Rightarrow> nat \<Rightarrow> (nat \<Rightarrow> nat) \<Rightarrow> (nat \<Rightarrow> nat) \<Rightarrow> (nat \<Rightarrow> nat \<Rightarrow> string list) \<Rightarrow> string list" where
  "spec_lines R C colWidth rowHeight out =
     spec_border C colWidth #
     concat (map (\<lambda>r. map (\<lambda>v. spec_content_line C (\<lambda>c. out r c ! v)) [0..<rowHeight r]
                       @ [spec_border C colWidth]) [0..<R])"

definition terminated :: "string list \<Rightarrow> string" where
  "terminated ls = concat (map (\<lambda>l. l @ [newline]) ls)"

definition cells_of :: "CTable \<Rightarrow> addr set" where
  "cells_of T = (\<Union>row\<in>set (Cells T). set row)"

definition CTable_inv :: "CTable \<Rightarrow> bool" where
  "CTable_inv T = (length (Cells T) = Rows T \<and> (\<forall>row\<in>set (Cells T). length row = Cols T))"

definition points_to :: "CBase \<Rightarrow> addr set" where
  "points_to x = (case x of CTableCell p \<Rightarrow> {p} | _ \<Rightarrow> {})"

definition heap_ok :: "heap \<Rightarrow> bool" where
  "heap_ok h =
     ((\<forall>t<length (tbls h). CTable_inv (tbls h ! t)
          \<and> (\<forall>a\<in>cells_of (tbls h ! t). a < length (objs h)))
      \<and> (\<forall>a<length (objs h). \<forall>p\<in>points_to (objs h ! a).
            p < length (tbls h) \<and> (\<forall>c\<in>cells_of (tbls h ! p). c < a)))"

definition closed :: "heap \<Rightarrow> addr set \<Rightarrow> addr set \<Rightarrow> bool" where
  "closed h Sc St =
     ((\<forall>a\<in>Sc. points_to (objs h ! a) \<subseteq> St)
      \<and> (\<forall>t\<in>St. \<forall>r<Rows (tbls h ! t). \<forall>c<Cols (tbls h ! t). Cells (tbls h ! t) ! r ! c \<in> Sc))"

definition agree :: "heap \<Rightarrow> heap \<Rightarrow> addr set \<Rightarrow> addr set \<Rightarrow> bool" where
  "agree h h' Sc St =
     ((\<forall>a\<in>Sc. objs h' ! a = objs h ! a) \<and> (\<forall>t\<in>St. tbls h' ! t = tbls h ! t))"

definition cell_succeeds ::
  "(addr \<Rightarrow> fault + nat) \<Rightarrow> (addr \<Rightarrow> fault + nat)
     \<Rightarrow> (addr \<Rightarrow> nat \<Rightarrow> nat \<Rightarrow> fault + string list) \<Rightarrow> addr \<Rightarrow> bool" where
  "cell_succeeds wd ht outf a =
     (\<exists>w k. wd a = Inr w \<and> ht a = Inr k \<and> (\<forall>H W. w \<le> W \<longrightarrow> (\<exists>ls. outf a H W = Inr ls)))"

definition is_clone :: "heap \<Rightarrow> heap \<Rightarrow> addr \<Rightarrow> addr \<Rightarrow> bool" where
  "is_clone h h' a' a =
     (length (objs h) \<le> a' \<and> a' < length (objs h') \<and> objs h' ! a' = objs h ! a)"

definition extends :: "heap \<Rightarrow> heap \<Rightarrow> bool" where
  "extends h h' =
     ((\<exists>xs. objs h' = objs h @ xs \<and> set xs \<subseteq> set (objs h)) \<and> tbls h' = tbls h)"

definition user_table :: "heap \<Rightarrow> addr \<Rightarrow> bool" where
  "user_table h t =
     (t < length (tbls h) \<and> (\<forall>a<length (objs h). t \<notin> points_to (objs h ! a)))"

definition grids_disjoint :: "heap \<Rightarrow> bool" where
  "grids_disjoint h =
     (\<forall>t<length (tbls h). \<forall>u<length (tbls h).
        t \<noteq> u \<longrightarrow> cells_of (tbls h ! t) \<inter> cells_of (tbls h ! u) = {})"

definition put_cell :: "CTable \<Rightarrow> nat \<Rightarrow> nat \<Rightarrow> addr \<Rightarrow> CTable" where
  "put_cell T row col a = T\<lparr>Cells := (Cells T)[row := (Cells T ! row)[col := a]]\<rparr>"

definition is_copy :: "heap \<Rightarrow> heap \<Rightarrow> CTable \<Rightarrow> CTable \<Rightarrow> bool" where
  "is_copy h h' T' T =
     (Rows T' = Rows T \<and> Cols T' = Cols T
      \<and> list_all2 (list_all2 (is_clone h h')) (Cells T') (Cells T))"

definition others :: "heap \<Rightarrow> addr \<Rightarrow> addr set" where
  "others h t = {q. q < length (tbls h) \<and> q \<noteq> t}"

definition their_cells :: "heap \<Rightarrow> addr \<Rightarrow> addr set" where
  "their_cells h t = (\<Union>q\<in>others h t. cells_of (tbls h ! q))"

text \<open>
  The footprint of a change from \<open>h\<close> to \<open>h'\<close>: of the objects and tables of \<open>h\<close>, only the
  objects in \<open>X\<close> and the table \<open>t\<close> may differ.
\<close>

definition only_touches :: "heap \<Rightarrow> heap \<Rightarrow> addr \<Rightarrow> addr set \<Rightarrow> bool" where
  "only_touches h h' t X =
     ((\<forall>a<length (objs h). a \<notin> X \<longrightarrow> objs h' ! a = objs h ! a)
      \<and> (\<forall>q<length (tbls h). q \<noteq> t \<longrightarrow> tbls h' ! q = tbls h ! q))"

text \<open>
  The mutating calls a program can make on a table it holds: the two \<^verbatim>\<open>setCell\<close>
  overloads, \<^verbatim>\<open>operator=\<close>, and the mutation of a cell in place through the reference
  that \<^verbatim>\<open>getCell\<close> returns.
\<close>

datatype call =
    SetCell addr nat nat addr
  | SetCellTable addr nat nat addr
  | Assign addr addr
  | SetText addr nat nat string
  | AddRow addr nat nat string

fun receiver :: "call \<Rightarrow> addr" where
  "receiver (SetCell t row col cell) = t"
| "receiver (SetCellTable t row col table) = t"
| "receiver (Assign t other) = t"
| "receiver (SetText t row col text) = t"
| "receiver (AddRow t row col r) = t"

fun exec :: "heap \<Rightarrow> call \<Rightarrow> fault + heap" where
  "exec h (SetCell t row col cell) = setCell h t row col cell"
| "exec h (SetCellTable t row col table) = setCell_table h t row col table"
| "exec h (Assign t other) = Inr (CTable_assign h t other)"
| "exec h (SetText t row col text) =
     (case getCell h t row col of Inl e \<Rightarrow> Inl e | Inr a \<Rightarrow> setText_at h a text)"
| "exec h (AddRow t row col r) =
     (case getCell h t row col of Inl e \<Rightarrow> Inl e | Inr a \<Rightarrow> addRow_at h a r)"

text \<open>
  The arguments of a call refer to live objects: the receiver is a table the program
  holds (no \<^verbatim>\<open>CTableCell\<close> owns it), and an argument is an allocated object or table.
\<close>

fun valid_call :: "heap \<Rightarrow> call \<Rightarrow> bool" where
  "valid_call h (SetCell t row col cell) = (user_table h t \<and> cell < length (objs h))"
| "valid_call h (SetCellTable t row col table) = (user_table h t \<and> table < length (tbls h))"
| "valid_call h (Assign t other) = (user_table h t \<and> other < length (tbls h))"
| "valid_call h (SetText t row col text) = user_table h t"
| "valid_call h (AddRow t row col r) = user_table h t"

fun run :: "heap \<Rightarrow> call list \<Rightarrow> fault + heap" where
  "run h [] = Inr h"
| "run h (m # ms) = (case exec h m of Inl e \<Rightarrow> Inl e | Inr h' \<Rightarrow> run h' ms)"

fun valid_run :: "heap \<Rightarrow> call list \<Rightarrow> bool" where
  "valid_run h [] = True"
| "valid_run h (m # ms) =
     (valid_call h m \<and> (case exec h m of Inl e \<Rightarrow> True | Inr h' \<Rightarrow> valid_run h' ms))"

definition store_inv :: "heap \<Rightarrow> bool" where
  "store_inv h = (heap_ok h \<and> grids_disjoint h)"

definition effect_ok :: "heap \<Rightarrow> heap \<Rightarrow> addr \<Rightarrow> bool" where
  "effect_ok h h' t =
     (store_inv h' \<and> (\<forall>q. user_table h q \<longrightarrow> user_table h' q)
      \<and> (\<exists>X. only_touches h h' t X \<and> X \<subseteq> cells_of (tbls h ! t))
      \<and> length (tbls h) \<le> length (tbls h'))"

text \<open>
  The lines of a block of text, as a reader counts them: the pieces between newlines,
  where text after the last newline is one more line and an empty rest is not.
\<close>

primrec split_on :: "char \<Rightarrow> string \<Rightarrow> string list" where
  "split_on sep [] = [[]]"
| "split_on sep (c # cs) =
     (if c = sep then [] # split_on sep cs
      else (c # hd (split_on sep cs)) # tl (split_on sep cs))"

definition text_lines :: "string \<Rightarrow> string list" where
  "text_lines s =
     (let pieces = split_on newline s in if last pieces = [] then butlast pieces else pieces)"

definition nl_free :: "string \<Rightarrow> bool" where
  "nl_free s = (newline \<notin> set s)"

definition cell_nl_free :: "CBase \<Rightarrow> bool" where
  "cell_nl_free x =
     (case x of
        CText lines format \<Rightarrow> list_all nl_free lines
      | CImage rows \<Rightarrow> list_all nl_free rows
      | _ \<Rightarrow> True)"

section \<open>Auxiliary facts\<close>

lemma mapF_map: "(\<And>x. x \<in> set xs \<Longrightarrow> f x = Inr (g x)) \<Longrightarrow> mapF f xs = Inr (map g xs)"
  by (induction xs) auto

lemma mapF_length: "mapF f xs = Inr ys \<Longrightarrow> length ys = length xs"
  by (induction xs arbitrary: ys) (auto split: sum.splits)

lemma mapF_nth: "mapF f xs = Inr ys \<Longrightarrow> i < length xs \<Longrightarrow> f (xs ! i) = Inr (ys ! i)"
  by (induction xs arbitrary: ys i) (auto split: sum.splits simp: nth_Cons split: nat.splits)

lemma mapF_Inl: "mapF f xs = Inl e \<Longrightarrow> \<exists>x\<in>set xs. f x = Inl e"
  by (induction xs) (auto split: sum.splits)

lemma mapF_cong: "(\<And>x. x \<in> set xs \<Longrightarrow> f x = g x) \<Longrightarrow> mapF f xs = mapF g xs"
  by (induction xs) (auto split: sum.splits)

lemma foldl_max_Max:
  "foldl (\<lambda>m x. max m (f x)) (a::nat) xs = Max (insert a (f ` set xs))"
proof (induction xs arbitrary: a)
  case Nil
  then show ?case by simp
next
  case (Cons x xs)
  have "Max (insert (max a (f x)) (f ` set xs)) = Max (insert a (insert (f x) (f ` set xs)))"
    by (cases "f ` set xs = {}") (simp_all add: max.assoc)
  with Cons show ?case by simp
qed

lemma foldl_max_ge: "x \<in> set xs \<Longrightarrow> f x \<le> foldl (\<lambda>m x. max m (f x)) (a::nat) xs"
  by (simp add: foldl_max_Max)

lemma foldl_max_upt:
  "0 < n \<Longrightarrow> foldl (\<lambda>m x. max m (f x)) (0::nat) [0..<n] = Max (f ` {..<n})"
proof -
  assume n: "0 < n"
  have "f ` {..<n} \<noteq> {}" using n by auto
  then have "Max (insert 0 (f ` {..<n})) = Max (f ` {..<n})"
    by (subst Max_insert) auto
  moreover have "set [0..<n] = {..<n}" by auto
  ultimately show ?thesis by (simp add: foldl_max_Max)
qed

section \<open>Every variant produces a block of the requested size\<close>

lemma CEmpty_Output_shape:
  "length (CEmpty_Output height width) = height \<and>
   (\<forall>l\<in>set (CEmpty_Output height width). length l = width)"
  by (simp add: CEmpty_Output_def)

lemma CText_line_length: "CText_line lines format width i = Inr l \<Longrightarrow> length l = width"
  by (auto simp: CText_line_def Let_def split: if_splits)

lemma CText_Output_shape:
  assumes "CText_Output lines format height width = Inr ls"
  shows "length ls = height" and "l \<in> set ls \<Longrightarrow> length l = width"
proof -
  show len: "length ls = height"
    using assms mapF_length[of _ "[0..<height]" ls] by (simp add: CText_Output_def)
  assume "l \<in> set ls"
  then obtain i where i: "i < length ls" "ls ! i = l" by (auto simp: in_set_conv_nth)
  with assms len have "CText_line lines format width i = Inr l"
    using mapF_nth[of "CText_line lines format width" "[0..<height]" ls i]
    by (simp add: CText_Output_def)
  then show "length l = width" by (rule CText_line_length)
qed

lemma CText_Width_ge: "l \<in> set lines \<Longrightarrow> length l \<le> CText_Width lines"
  unfolding CText_Width_def by (rule foldl_max_ge)

lemma CText_Output_fits:
  assumes "\<forall>l\<in>set lines. length l \<le> width"
  shows "CText_Output lines format height width
           = Inr (map (CText_pad lines format width) [0..<height])"
  unfolding CText_Output_def
proof (rule mapF_map)
  fix i
  have "i < length lines \<Longrightarrow> length (lines ! i) \<le> width"
    using assms by auto
  then show "CText_line lines format width i = Inr (CText_pad lines format width i)"
    by (auto simp: CText_line_def CText_pad_def Let_def)
qed

lemma CImage_put_length:
  "length canvasLine = width \<Longrightarrow> offsetX \<le> width
     \<Longrightarrow> length (CImage_put canvasLine offsetX width imgLine) = width"
  by (auto simp: CImage_put_def string_replace_def)

lemma CImage_loop_shape:
  assumes "offsetX \<le> width" "\<forall>l\<in>set out. length l = width"
  shows "length (CImage_loop rows offsetY offsetX height width i out) = length out
         \<and> (\<forall>l\<in>set (CImage_loop rows offsetY offsetX height width i out). length l = width)"
  using assms
proof (induction rows offsetY offsetX height width i out rule: CImage_loop.induct)
  case (1 rows offsetY offsetX height width i out)
  show ?case
  proof (cases "i < length rows \<and> i + offsetY < height")
    case True
    define out' where
      "out' = out[i + offsetY := CImage_put (out ! (i + offsetY)) offsetX width (rows ! i)]"
    have eq: "CImage_loop rows offsetY offsetX height width i out
                = CImage_loop rows offsetY offsetX height width (Suc i) out'"
      using True by (subst CImage_loop.simps) (simp add: out'_def)
    have "\<forall>l\<in>set out'. length l = width"
    proof
      fix l assume l: "l \<in> set out'"
      show "length l = width"
      proof (cases "i + offsetY < length out")
        case inside: True
        then have o: "length (out ! (i + offsetY)) = width"
          using "1.prems"(2) nth_mem by blast
        from l have "l \<in> insert (CImage_put (out ! (i + offsetY)) offsetX width (rows ! i)) (set out)"
          unfolding out'_def using set_update_subset_insert by fastforce
        then have "l \<in> set out \<or> l = CImage_put (out ! (i + offsetY)) offsetX width (rows ! i)"
          by blast
        then show ?thesis
          using "1.prems"(2) CImage_put_length[OF o "1.prems"(1)] by blast
      next
        case False
        then have "out' = out" by (simp add: out'_def list_update_beyond)
        with l "1.prems"(2) show ?thesis by blast
      qed
    qed
    from "1.IH"[OF True "1.prems"(1), folded out'_def, OF this]
    show ?thesis unfolding eq by (simp add: out'_def)
  next
    case False
    then have "CImage_loop rows offsetY offsetX height width i out = out"
      by (subst CImage_loop.simps) auto
    with "1.prems"(2) show ?thesis by (simp only:)
  qed
qed

lemma CImage_Output_shape:
  "length (CImage_Output rows height width) = height \<and>
   (\<forall>l\<in>set (CImage_Output rows height width). length l = width)"
proof -
  define out where "out = replicate height (replicate width space)"
  define offsetY where
    "offsetY = (if height > length rows then (height - length rows) div 2 else 0)"
  define offsetX where
    "offsetX = (if width > length (rows ! 0) then (width - length (rows ! 0)) div 2 else 0)"
  have out: "\<forall>l\<in>set out. length l = width" "length out = height"
    by (simp_all add: out_def)
  have "(width - length (rows ! 0)) div 2 \<le> width - length (rows ! 0)" by simp
  also have "\<dots> \<le> width" by simp
  finally have off: "offsetX \<le> width" by (simp add: offsetX_def)
  have loop: "length (CImage_loop rows offsetY offsetX height width 0 out) = height
         \<and> (\<forall>l\<in>set (CImage_loop rows offsetY offsetX height width 0 out). length l = width)"
    using CImage_loop_shape[OF off out(1), of rows offsetY height 0] out(2) by simp
  have eq: "CImage_Output rows height width =
      (if rows = [] \<or> height = 0 \<or> width = 0 then out
       else CImage_loop rows offsetY offsetX height width 0 out)"
    by (simp add: CImage_Output_def Let_def out_def offsetX_def offsetY_def)
  show ?thesis
  proof (cases "rows = [] \<or> height = 0 \<or> width = 0")
    case True
    then have "CImage_Output rows height width = out" by (simp only: eq if_True)
    with out show ?thesis by simp
  next
    case False
    then have "CImage_Output rows height width = CImage_loop rows offsetY offsetX height width 0 out"
      by (simp only: eq if_False)
    with loop show ?thesis by simp
  qed
qed

lemma CTableCell_fill_shape:
  assumes "length result \<le> height" "\<forall>l\<in>set result. length l = width"
  shows "length (CTableCell_fill lines height width result) \<le> height
         \<and> (\<forall>l\<in>set (CTableCell_fill lines height width result). length l = width)"
  using assms
proof (induction lines arbitrary: result)
  case Nil
  have "CTableCell_fill [] height width result = result" by simp
  with Nil show ?case by (simp only:)
next
  case (Cons line rest)
  show ?case
  proof (cases "length result < height")
    case True
    define fitted where "fitted = (if length line > width then take width line
                        else line @ replicate (width - length line) space)"
    have fitted: "length fitted = width" by (simp add: fitted_def)
    have eq: "CTableCell_fill (line # rest) height width result
                = CTableCell_fill rest height width (result @ [fitted])"
      using True by (simp add: fitted_def)
    have "length (result @ [fitted]) \<le> height"
      using True by simp
    moreover have "\<forall>l\<in>set (result @ [fitted]). length l = width"
    proof
      fix l assume "l \<in> set (result @ [fitted])"
      then have "l \<in> set result \<or> l = fitted" by auto
      then show "length l = width" using Cons.prems(2) fitted by blast
    qed
    ultimately show ?thesis unfolding eq by (rule Cons.IH)
  next
    case False
    then have "CTableCell_fill (line # rest) height width result = result" by simp
    with Cons.prems show ?thesis by (simp only:)
  qed
qed

lemma CTableCell_Output_shape:
  "length (CTableCell_Output content height width) = height \<and>
   (\<forall>l\<in>set (CTableCell_Output content height width). length l = width)"
proof -
  define result where "result = CTableCell_fill (getlines content) height width []"
  have "length result \<le> height \<and> (\<forall>l\<in>set result. length l = width)"
    unfolding result_def by (rule CTableCell_fill_shape) simp_all
  moreover have "CTableCell_Output content height width
      = result @ replicate (height - length result) (replicate width space)"
    by (simp add: CTableCell_Output_def result_def Let_def)
  moreover have "length (result @ replicate (height - length result) (replicate width space)) = height"
    using calculation(1) by simp
  moreover have "\<forall>l\<in>set (result @ replicate (height - length result) (replicate width space)). length l = width"
  proof
    fix l assume "l \<in> set (result @ replicate (height - length result) (replicate width space))"
    then have "l \<in> set result \<or> l = replicate width space" by auto
    moreover have "length (replicate width space) = width" by simp
    ultimately show "length l = width" using \<open>length result \<le> height \<and> (\<forall>l\<in>set result. length l = width)\<close> by blast
  qed
  ultimately show ?thesis by (simp only:)
qed

section \<open>The layout of a rendered table\<close>

lemma render_Suc:
  "render (Suc n) h t = layout (tbls h ! t) (Width n h) (Height n h) (Output n h)"
  unfolding render.simps layout_def Let_def by (rule refl)

lemma mapF_grid:
  assumes "\<And>r c. r < R \<Longrightarrow> c < C \<Longrightarrow> f r c = Inr (g r c)"
  shows "mapF (\<lambda>r. mapF (\<lambda>c. f r c) [0..<C]) [0..<R]
           = Inr (map (\<lambda>r. map (\<lambda>c. g r c) [0..<C]) [0..<R])"
proof (rule mapF_map)
  fix r assume "r \<in> set [0..<R]"
  then have r: "r < R" by simp
  show "mapF (\<lambda>c. f r c) [0..<C] = Inr (map (\<lambda>c. g r c) [0..<C])"
    by (rule mapF_map) (use r assms in simp)
qed

lemma maxColWidths_grid:
  "maxColWidths R C (map (\<lambda>r. map (\<lambda>c. W r c) [0..<C]) [0..<R])
     = map (\<lambda>c. foldl (\<lambda>m r. max m (W r c)) 0 [0..<R]) [0..<C]"
proof -
  have "foldl (\<lambda>m r. max m (map (\<lambda>r. map (\<lambda>c. W r c) [0..<C]) [0..<R] ! r ! c)) 0 [0..<R]
      = foldl (\<lambda>m r. max m (W r c)) 0 [0..<R]" if "c < C" for c
    by (rule foldl_cong) (use that in simp_all)
  then show ?thesis by (simp add: maxColWidths_def)
qed

lemma maxRowHeights_grid:
  "maxRowHeights R C (map (\<lambda>r. map (\<lambda>c. H r c) [0..<C]) [0..<R])
     = map (\<lambda>r. foldl (\<lambda>m c. max m (H r c)) 0 [0..<C]) [0..<R]"
proof -
  have "foldl (\<lambda>m c. max m (map (\<lambda>r. map (\<lambda>c. H r c) [0..<C]) [0..<R] ! r ! c)) 0 [0..<C]
      = foldl (\<lambda>m c. max m (H r c)) 0 [0..<C]" if "r < R" for r
    by (rule foldl_cong) (use that in simp_all)
  then show ?thesis by (simp add: maxRowHeights_def)
qed

lemma map_upt_nth: "map (\<lambda>x. F (map g [0..<n] ! x)) [0..<n] = map (\<lambda>x. F (g x)) [0..<n]"
  by (rule map_cong) simp_all

lemma printBorder_spec:
  "printBorder C (map cw [0..<C]) = spec_border C cw @ [newline]"
  unfolding printBorder_def spec_border_def
  by (subst map_upt_nth[of "\<lambda>w. replicate w CHR ''-'' @ ''+''" cw C]) simp

lemma printLine_spec:
  "printLine C (map out [0..<C]) v = spec_content_line C (\<lambda>c. out c ! v) @ [newline]"
  unfolding printLine_def spec_content_line_def
  by (subst map_upt_nth[of "\<lambda>ls. ls ! v @ ''|''" out C]) simp

lemma terminated_snoc: "terminated (xs @ [l]) = terminated xs @ l @ [newline]"
  by (simp add: terminated_def)

lemma terminated_map: "terminated (map f xs) = concat (map (\<lambda>x. f x @ [newline]) xs)"
  by (simp add: terminated_def comp_def)

lemma printRow_spec:
  "printRow C (map cw [0..<C]) rh (map out [0..<C])
     = terminated (map (\<lambda>v. spec_content_line C (\<lambda>c. out c ! v)) [0..<rh] @ [spec_border C cw])"
  unfolding printRow_def printBorder_spec terminated_snoc terminated_map
  by (simp add: printLine_spec cong: map_cong)

lemma terminated_append: "terminated (xs @ ys) = terminated xs @ terminated ys"
  by (simp add: terminated_def)

lemma terminated_concat: "terminated (concat xss) = concat (map terminated xss)"
  by (induction xss) (simp_all add: terminated_append, simp add: terminated_def)

lemma layout_lines:
  fixes T :: CTable and W H :: "nat \<Rightarrow> nat \<Rightarrow> nat"
  defines "cw \<equiv> \<lambda>c. foldl (\<lambda>m r. max m (W r c)) 0 [0..<Rows T]"
    and "rh \<equiv> \<lambda>r. foldl (\<lambda>m c. max m (H r c)) 0 [0..<Cols T]"
  assumes W: "\<And>r c. r < Rows T \<Longrightarrow> c < Cols T \<Longrightarrow> width_of (Cells T ! r ! c) = Inr (W r c)"
    and H: "\<And>r c. r < Rows T \<Longrightarrow> c < Cols T \<Longrightarrow> height_of (Cells T ! r ! c) = Inr (H r c)"
    and Out: "\<And>r c. r < Rows T \<Longrightarrow> c < Cols T \<Longrightarrow>
                output_of (Cells T ! r ! c) (rh r) (cw c) = Inr (out r c)"
  shows "layout T width_of height_of output_of
           = Inr (terminated (spec_lines (Rows T) (Cols T) cw rh out))"
proof -
  let ?R = "Rows T" and ?C = "Cols T"
  have 1: "mapF (\<lambda>r. mapF (\<lambda>c. width_of (Cells T ! r ! c)) [0..<?C]) [0..<?R]
             = Inr (map (\<lambda>r. map (\<lambda>c. W r c) [0..<?C]) [0..<?R])"
    by (rule mapF_grid) (rule W)
  have 2: "mapF (\<lambda>r. mapF (\<lambda>c. height_of (Cells T ! r ! c)) [0..<?C]) [0..<?R]
             = Inr (map (\<lambda>r. map (\<lambda>c. H r c) [0..<?C]) [0..<?R])"
    by (rule mapF_grid) (rule H)
  have cws: "maxColWidths ?R ?C (map (\<lambda>r. map (\<lambda>c. W r c) [0..<?C]) [0..<?R]) = map cw [0..<?C]"
    by (simp add: maxColWidths_grid cw_def)
  have rhs: "maxRowHeights ?R ?C (map (\<lambda>r. map (\<lambda>c. H r c) [0..<?C]) [0..<?R]) = map rh [0..<?R]"
    by (simp add: maxRowHeights_grid rh_def)
  have 3: "mapF (\<lambda>r. mapF (\<lambda>c. output_of (Cells T ! r ! c) (map rh [0..<?R] ! r) (map cw [0..<?C] ! c))
                    [0..<?C]) [0..<?R]
             = Inr (map (\<lambda>r. map (\<lambda>c. out r c) [0..<?C]) [0..<?R])"
    by (rule mapF_grid) (simp add: Out)
  have rows: "map (\<lambda>r. printRow ?C (map cw [0..<?C]) (map rh [0..<?R] ! r)
                      (map (\<lambda>r. map (\<lambda>c. out r c) [0..<?C]) [0..<?R] ! r)) [0..<?R]
        = map (\<lambda>r. terminated (map (\<lambda>v. spec_content_line ?C (\<lambda>c. out r c ! v)) [0..<rh r]
                       @ [spec_border ?C cw])) [0..<?R]"
    by (rule map_cong) (simp_all add: printRow_spec)
  have "layout T width_of height_of output_of
      = Inr (printBorder ?C (map cw [0..<?C])
             @ concat (map (\<lambda>r. printRow ?C (map cw [0..<?C]) (map rh [0..<?R] ! r)
                      (map (\<lambda>r. map (\<lambda>c. out r c) [0..<?C]) [0..<?R] ! r)) [0..<?R]))"
    unfolding layout_def 1 2 cws rhs Let_def sum.case 3 ..
  also have "\<dots> = Inr (terminated (spec_lines ?R ?C cw rh out))"
  proof -
    have "concat (map (\<lambda>r. terminated (map (\<lambda>v. spec_content_line ?C (\<lambda>c. out r c ! v)) [0..<rh r]
                       @ [spec_border ?C cw])) [0..<?R])
        = terminated (concat (map (\<lambda>r. map (\<lambda>v. spec_content_line ?C (\<lambda>c. out r c ! v)) [0..<rh r]
                       @ [spec_border ?C cw]) [0..<?R]))"
      by (simp only: terminated_concat map_map comp_def)
    moreover have "terminated (b # ls) = (b @ [newline]) @ terminated ls" for b ls
      by (simp add: terminated_def)
    ultimately show ?thesis
      unfolding rows printBorder_spec spec_lines_def by simp
  qed
  finally show ?thesis .
qed

section \<open>Well-formed stores and framing\<close>

lemma cell_in_cells_of:
  "CTable_inv T \<Longrightarrow> r < Rows T \<Longrightarrow> c < Cols T \<Longrightarrow> Cells T ! r ! c \<in> cells_of T"
  unfolding CTable_inv_def cells_of_def
  by (metis UN_I nth_mem)

lemma layout_cong:
  assumes "Rows T' = Rows T" "Cols T' = Cols T"
    and "\<And>r c. r < Rows T \<Longrightarrow> c < Cols T \<Longrightarrow> wd' (Cells T' ! r ! c) = wd (Cells T ! r ! c)"
    and "\<And>r c. r < Rows T \<Longrightarrow> c < Cols T \<Longrightarrow> ht' (Cells T' ! r ! c) = ht (Cells T ! r ! c)"
    and "\<And>r c. r < Rows T \<Longrightarrow> c < Cols T \<Longrightarrow> outf' (Cells T' ! r ! c) = outf (Cells T ! r ! c)"
  shows "layout T' wd' ht' outf' = layout T wd ht outf"
proof -
  have grid: "mapF (\<lambda>r. mapF (\<lambda>c. f' r c) [0..<Cols T]) [0..<Rows T]
              = mapF (\<lambda>r. mapF (\<lambda>c. f r c) [0..<Cols T]) [0..<Rows T]"
    if "\<And>r c. r < Rows T \<Longrightarrow> c < Cols T \<Longrightarrow> f' r c = f r c"
    for f f' :: "nat \<Rightarrow> nat \<Rightarrow> fault + 'x"
    by (intro mapF_cong) (use that in simp)
  have 1: "mapF (\<lambda>r. mapF (\<lambda>c. wd' (Cells T' ! r ! c)) [0..<Cols T]) [0..<Rows T]
         = mapF (\<lambda>r. mapF (\<lambda>c. wd (Cells T ! r ! c)) [0..<Cols T]) [0..<Rows T]"
    by (rule grid) (rule assms(3))
  have 2: "mapF (\<lambda>r. mapF (\<lambda>c. ht' (Cells T' ! r ! c)) [0..<Cols T]) [0..<Rows T]
         = mapF (\<lambda>r. mapF (\<lambda>c. ht (Cells T ! r ! c)) [0..<Cols T]) [0..<Rows T]"
    by (rule grid) (rule assms(4))
  have 3: "mapF (\<lambda>r. mapF (\<lambda>c. outf' (Cells T' ! r ! c) (hs ! r) (ws ! c)) [0..<Cols T]) [0..<Rows T]
         = mapF (\<lambda>r. mapF (\<lambda>c. outf (Cells T ! r ! c) (hs ! r) (ws ! c)) [0..<Cols T]) [0..<Rows T]"
    for hs ws
    by (rule grid) (simp add: assms(5))
  show ?thesis
    unfolding layout_def assms(1,2) 1 2 3 ..
qed

lemma frame:
  assumes "closed h Sc St" "agree h h' Sc St"
  shows "(\<forall>a\<in>Sc. Width n h' a = Width n h a \<and> Height n h' a = Height n h a
            \<and> Output n h' a = Output n h a)
         \<and> (\<forall>t\<in>St. render n h' t = render n h t)"
proof (induction n)
  case 0
  show ?case by (simp add: fun_eq_iff)
next
  case (Suc n)
  have cell: "Width (Suc n) h' a = Width (Suc n) h a \<and> Height (Suc n) h' a = Height (Suc n) h a
            \<and> Output (Suc n) h' a = Output (Suc n) h a" if a: "a \<in> Sc" for a
  proof -
    have obj: "objs h' ! a = objs h ! a" using assms(2) a by (simp add: agree_def)
    have "render n h' p = render n h p" if "objs h ! a = CTableCell p" for p
    proof -
      have "p \<in> St" using assms(1) a that by (auto simp: closed_def points_to_def)
      with Suc show ?thesis by simp
    qed
    then show ?thesis
      by (cases "objs h ! a") (simp_all add: obj fun_eq_iff)
  qed
  have tab: "render (Suc n) h' t = render (Suc n) h t" if t: "t \<in> St" for t
  proof -
    have T: "tbls h' ! t = tbls h ! t" using assms(2) t by (simp add: agree_def)
    have in_Sc: "Cells (tbls h ! t) ! r ! c \<in> Sc" if "r < Rows (tbls h ! t)" "c < Cols (tbls h ! t)" for r c
      using assms(1) t that by (simp add: closed_def)
    show ?thesis
      unfolding render_Suc T
      by (rule layout_cong) (use Suc in_Sc in simp_all)
  qed
  from cell tab show ?case by blast
qed

section \<open>Rendering returns\<close>

lemma Output_shape:
  assumes "Output n h a height width = Inr ls"
  shows "length ls = height \<and> (\<forall>l\<in>set ls. length l = width)"
proof (cases n)
  case 0
  with assms show ?thesis by simp
next
  case (Suc m)
  show ?thesis
  proof (cases "objs h ! a")
    case CEmpty
    with assms Suc have "ls = CEmpty_Output height width" by simp
    then show ?thesis using CEmpty_Output_shape[of height width] by blast
  next
    case (CText lines format)
    with assms Suc have "CText_Output lines format height width = Inr ls" by simp
    then show ?thesis using CText_Output_shape by blast
  next
    case (CImage rows)
    with assms Suc have "ls = CImage_Output rows height width" by simp
    then show ?thesis using CImage_Output_shape[of rows height width] by blast
  next
    case (CTableCell p)
    with assms Suc obtain s where "ls = CTableCell_Output s height width"
      by (auto split: sum.splits)
    then show ?thesis using CTableCell_Output_shape[of s height width] by blast
  qed
qed

lemma layout_success:
  assumes cell: "\<And>r c. r < Rows T \<Longrightarrow> c < Cols T \<Longrightarrow> cell_succeeds wd ht outf (Cells T ! r ! c)"
  defines "W \<equiv> \<lambda>r c. projr (wd (Cells T ! r ! c))"
    and "H \<equiv> \<lambda>r c. projr (ht (Cells T ! r ! c))"
  defines "cw \<equiv> \<lambda>c. foldl (\<lambda>m r. max m (W r c)) 0 [0..<Rows T]"
    and "rh \<equiv> \<lambda>r. foldl (\<lambda>m c. max m (H r c)) 0 [0..<Cols T]"
  defines "out \<equiv> \<lambda>r c. projr (outf (Cells T ! r ! c) (rh r) (cw c))"
  shows "layout T wd ht outf = Inr (terminated (spec_lines (Rows T) (Cols T) cw rh out))"
    and "\<And>r c. r < Rows T \<Longrightarrow> c < Cols T \<Longrightarrow> wd (Cells T ! r ! c) = Inr (W r c)"
    and "\<And>r c. r < Rows T \<Longrightarrow> c < Cols T \<Longrightarrow> ht (Cells T ! r ! c) = Inr (H r c)"
    and "\<And>r c. r < Rows T \<Longrightarrow> c < Cols T \<Longrightarrow>
           outf (Cells T ! r ! c) (rh r) (cw c) = Inr (out r c)"
proof -
  show Wd: "wd (Cells T ! r ! c) = Inr (W r c)" if "r < Rows T" "c < Cols T" for r c
    using cell[OF that] by (auto simp: cell_succeeds_def W_def)
  show Ht: "ht (Cells T ! r ! c) = Inr (H r c)" if "r < Rows T" "c < Cols T" for r c
    using cell[OF that] by (auto simp: cell_succeeds_def H_def)
  show Out: "outf (Cells T ! r ! c) (rh r) (cw c) = Inr (out r c)"
    if rc: "r < Rows T" "c < Cols T" for r c
  proof -
    have "W r c \<le> cw c"
      unfolding cw_def using rc(1) by (intro foldl_max_ge) simp
    moreover from cell[OF rc] Wd[OF rc]
    have "\<forall>H' W'. W r c \<le> W' \<longrightarrow> (\<exists>ls. outf (Cells T ! r ! c) H' W' = Inr ls)"
      by (auto simp: cell_succeeds_def)
    ultimately obtain ls where "outf (Cells T ! r ! c) (rh r) (cw c) = Inr ls" by blast
    then show ?thesis by (simp add: out_def)
  qed
  show "layout T wd ht outf = Inr (terminated (spec_lines (Rows T) (Cols T) cw rh out))"
    unfolding cw_def rh_def
    by (rule layout_lines) (use Wd Ht Out in \<open>simp_all add: cw_def rh_def\<close>)
qed

lemma cell_success:
  assumes ok: "heap_ok h"
  shows "a < length (objs h) \<Longrightarrow> 2 * a + 2 \<le> n
           \<Longrightarrow> cell_succeeds (Width n h) (Height n h) (Output n h) a"
proof (induction a arbitrary: n rule: less_induct)
  case (less a)
  then obtain m where n: "n = Suc m" and m: "2 * a + 1 \<le> m" by (cases n) auto
  show ?case
  proof (cases "objs h ! a")
    case CEmpty
    then show ?thesis by (simp add: cell_succeeds_def n)
  next
    case (CText lines format)
    have "\<exists>ls. CText_Output lines format H W = Inr ls" if "CText_Width lines \<le> W" for H W
    proof -
      have "\<forall>l\<in>set lines. length l \<le> W"
        using that CText_Width_ge[of _ lines] by (meson le_trans)
      from CText_Output_fits[OF this] show ?thesis by blast
    qed
    with CText show ?thesis by (simp add: cell_succeeds_def n)
  next
    case (CImage rows)
    then show ?thesis by (simp add: cell_succeeds_def n)
  next
    case (CTableCell p)
    then have pt: "p \<in> points_to (objs h ! a)" by (simp add: points_to_def)
    with ok less.prems(1) have p: "p < length (tbls h)"
      and below: "\<forall>c\<in>cells_of (tbls h ! p). c < a"
      unfolding heap_ok_def by blast+
    from ok p have inv: "CTable_inv (tbls h ! p)" unfolding heap_ok_def by blast
    obtain k where mk: "m = Suc k" and k: "2 * a \<le> k" using m by (cases m) auto
    have "cell_succeeds (Width k h) (Height k h) (Output k h) (Cells (tbls h ! p) ! r ! c)"
      if rc: "r < Rows (tbls h ! p)" "c < Cols (tbls h ! p)" for r c
    proof -
      have lt: "Cells (tbls h ! p) ! r ! c < a"
        using below cell_in_cells_of[OF inv rc] by blast
      show ?thesis
        by (rule less.IH[OF lt]) (use lt less.prems(1) k in simp_all)
    qed
    from layout_success(1)[of "tbls h ! p", OF this]
    obtain s where "render m h p = Inr s" unfolding mk render_Suc by blast
    with CTableCell show ?thesis by (simp add: cell_succeeds_def n)
  qed
qed

lemma table_cells_succeed:
  assumes ok: "heap_ok h" and t: "t < length (tbls h)" and n: "2 * length (objs h) \<le> n"
    and rc: "r < Rows (tbls h ! t)" "c < Cols (tbls h ! t)"
  shows "cell_succeeds (Width n h) (Height n h) (Output n h) (Cells (tbls h ! t) ! r ! c)"
proof -
  from ok t have inv: "CTable_inv (tbls h ! t)"
    and cells: "\<forall>a\<in>cells_of (tbls h ! t). a < length (objs h)"
    unfolding heap_ok_def by blast+
  have lt: "Cells (tbls h ! t) ! r ! c < length (objs h)"
    using cells cell_in_cells_of[OF inv rc] by blast
  show ?thesis
    by (rule cell_success[OF ok lt]) (use lt n in simp)
qed

lemma render_success:
  assumes "heap_ok h" "t < length (tbls h)" "2 * length (objs h) \<le> n"
  shows "\<exists>s. render (Suc n) h t = Inr s"
  unfolding render_Suc
  using layout_success(1)[of "tbls h ! t", OF table_cells_succeed[OF assms]] by blast

section \<open>Cloning a grid\<close>

lemma extends_refl: "extends h h"
  by (simp add: extends_def)

lemma extends_trans:
  assumes "extends h h1" "extends h1 h2"
  shows "extends h h2"
proof -
  from assms(1) obtain xs where 1: "objs h1 = objs h @ xs" "set xs \<subseteq> set (objs h)"
    "tbls h1 = tbls h" by (auto simp: extends_def)
  from assms(2) obtain ys where 2: "objs h2 = objs h1 @ ys" "set ys \<subseteq> set (objs h1)"
    "tbls h2 = tbls h1" by (auto simp: extends_def)
  have "objs h2 = objs h @ (xs @ ys)" using 1(1) 2(1) by simp
  moreover have "set (xs @ ys) \<subseteq> set (objs h)" using 1(1,2) 2(2) by auto
  ultimately show ?thesis unfolding extends_def using 1(3) 2(3) by metis
qed

lemma extends_nth: "extends h h' \<Longrightarrow> a < length (objs h) \<Longrightarrow> objs h' ! a = objs h ! a"
  by (auto simp: extends_def nth_append)

lemma extends_length: "extends h h' \<Longrightarrow> length (objs h) \<le> length (objs h')"
  by (auto simp: extends_def)

lemma extends_tbls: "extends h h' \<Longrightarrow> tbls h' = tbls h"
  by (simp add: extends_def)

lemma extends_old_object:
  assumes "extends h h'" "a < length (objs h')"
  shows "objs h' ! a \<in> set (objs h)"
proof -
  from assms(1) obtain xs where xs: "objs h' = objs h @ xs" "set xs \<subseteq> set (objs h)"
    by (auto simp: extends_def)
  have "objs h' ! a \<in> set (objs h')" using assms(2) by simp
  then show ?thesis using xs by auto
qed

lemma Clone_extends: "Clone h a = (h', a') \<Longrightarrow> a < length (objs h) \<Longrightarrow> extends h h'"
  by (auto simp: Clone_def new_obj_def extends_def)

lemma Clone_is_clone: "Clone h a = (h', a') \<Longrightarrow> a < length (objs h) \<Longrightarrow> is_clone h h' a' a"
  by (auto simp: Clone_def new_obj_def is_clone_def)

lemma is_clone_extends:
  assumes "is_clone h1 h2 a' a" "extends h h1" "extends h2 h3" "a < length (objs h)"
  shows "is_clone h h3 a' a"
proof -
  from assms(1) have 1: "length (objs h1) \<le> a'" "a' < length (objs h2)" "objs h2 ! a' = objs h1 ! a"
    by (simp_all add: is_clone_def)
  have "length (objs h) \<le> a'" using 1(1) extends_length[OF assms(2)] by simp
  moreover have "a' < length (objs h3)" using 1(2) extends_length[OF assms(3)] by simp
  moreover have "objs h3 ! a' = objs h ! a"
    using extends_nth[OF assms(3) 1(2)] 1(3) extends_nth[OF assms(2) assms(4)] by simp
  ultimately show ?thesis by (simp add: is_clone_def)
qed

lemma clone_cells_rel:
  assumes "\<forall>a\<in>set as. a < length (objs h)" "clone_cells h as = (h', as')"
  shows "extends h h' \<and> list_all2 (is_clone h h') as' as"
  using assms
proof (induction as arbitrary: h h' as')
  case Nil
  then show ?case by (simp add: extends_refl)
next
  case (Cons a as)
  obtain h1 a1 where c: "Clone h a = (h1, a1)" by (cases "Clone h a")
  obtain h2 as2 where r: "clone_cells h1 as = (h2, as2)" by (cases "clone_cells h1 as")
  from Cons.prems(2) c r have res: "h' = h2" "as' = a1 # as2" by simp_all
  have a: "a < length (objs h)" using Cons.prems(1) by simp
  have e1: "extends h h1" by (rule Clone_extends[OF c a])
  have "\<forall>x\<in>set as. x < length (objs h1)"
  proof
    fix x assume "x \<in> set as"
    then have "x < length (objs h)" using Cons.prems(1) by simp
    then show "x < length (objs h1)" using extends_length[OF e1] by simp
  qed
  from Cons.IH[OF this r] have e2: "extends h1 h2" and l2: "list_all2 (is_clone h1 h2) as2 as"
    by blast+
  have head: "is_clone h h2 a1 a"
    by (rule is_clone_extends[OF Clone_is_clone[OF c a] extends_refl e2 a])
  have tail: "list_all2 (is_clone h h2) as2 as"
  proof (rule list.rel_mono_strong[OF l2])
    fix x y assume xy: "is_clone h1 h2 x y"
    assume "y \<in> set as"
    then have "y < length (objs h)" using Cons.prems(1) by simp
    from is_clone_extends[OF xy e1 extends_refl this] show "is_clone h h2 x y" .
  qed
  from head tail extends_trans[OF e1 e2] show ?case by (simp add: res)
qed

lemma clone_grid_rel:
  assumes "\<forall>row\<in>set g. \<forall>a\<in>set row. a < length (objs h)" "clone_grid h g = (h', g')"
  shows "extends h h' \<and> list_all2 (list_all2 (is_clone h h')) g' g"
  using assms
proof (induction g arbitrary: h h' g')
  case Nil
  then show ?case by (simp add: extends_refl)
next
  case (Cons row rows)
  obtain h1 row1 where c: "clone_cells h row = (h1, row1)" by (cases "clone_cells h row")
  obtain h2 rows2 where r: "clone_grid h1 rows = (h2, rows2)" by (cases "clone_grid h1 rows")
  from Cons.prems(2) c r have res: "h' = h2" "g' = row1 # rows2" by simp_all
  have row: "\<forall>a\<in>set row. a < length (objs h)" using Cons.prems(1) by simp
  from clone_cells_rel[OF row c]
  have e1: "extends h h1" and l1: "list_all2 (is_clone h h1) row1 row" by blast+
  have "\<forall>row'\<in>set rows. \<forall>a\<in>set row'. a < length (objs h1)"
  proof (intro ballI)
    fix row' a assume "row' \<in> set rows" "a \<in> set row'"
    then have "a < length (objs h)" using Cons.prems(1) by auto
    then show "a < length (objs h1)" using extends_length[OF e1] by simp
  qed
  from Cons.IH[OF this r] have e2: "extends h1 h2"
    and l2: "list_all2 (list_all2 (is_clone h1 h2)) rows2 rows" by blast+
  have head: "list_all2 (is_clone h h2) row1 row"
  proof (rule list.rel_mono_strong[OF l1])
    fix x y assume xy: "is_clone h h1 x y" and "y \<in> set row"
    then have "y < length (objs h)" using row by blast
    from is_clone_extends[OF xy extends_refl e2 this] show "is_clone h h2 x y" .
  qed
  have tail: "list_all2 (list_all2 (is_clone h h2)) rows2 rows"
  proof (rule list.rel_mono_strong[OF l2])
    fix xs ys assume xs: "list_all2 (is_clone h1 h2) xs ys" and ys: "ys \<in> set rows"
    show "list_all2 (is_clone h h2) xs ys"
    proof (rule list.rel_mono_strong[OF xs])
      fix x y assume xy: "is_clone h1 h2 x y" and "y \<in> set ys"
      then have "y < length (objs h)" using ys Cons.prems(1) by auto
      from is_clone_extends[OF xy e1 extends_refl this] show "is_clone h h2 x y" .
    qed
  qed
  from head tail extends_trans[OF e1 e2] show ?case by (simp add: res)
qed

lemma grid_addrs_inv: "CTable_inv T \<Longrightarrow> grid_addrs T = Cells T"
proof -
  assume inv: "CTable_inv T"
  then have len: "length (Cells T) = Rows T" and row: "\<And>r. r < Rows T \<Longrightarrow> length (Cells T ! r) = Cols T"
    by (auto simp: CTable_inv_def)
  have "map (\<lambda>c. Cells T ! r ! c) [0..<Cols T] = Cells T ! r" if "r < Rows T" for r
    using row[OF that] map_nth[of "Cells T ! r"] by simp
  then have "grid_addrs T = map (\<lambda>r. Cells T ! r) [0..<Rows T]"
    unfolding grid_addrs_def by (intro map_cong) simp_all
  also have "\<dots> = Cells T" using len map_nth[of "Cells T"] by simp
  finally show ?thesis .
qed

section \<open>The store invariant is kept by allocation and by storing a cell\<close>

lemma heap_okD_inv: "heap_ok h \<Longrightarrow> t < length (tbls h) \<Longrightarrow> CTable_inv (tbls h ! t)"
  unfolding heap_ok_def by blast

lemma heap_okD_cells:
  "heap_ok h \<Longrightarrow> t < length (tbls h) \<Longrightarrow> c \<in> cells_of (tbls h ! t) \<Longrightarrow> c < length (objs h)"
  unfolding heap_ok_def by blast

lemma heap_okD_ptr:
  "heap_ok h \<Longrightarrow> a < length (objs h) \<Longrightarrow> p \<in> points_to (objs h ! a) \<Longrightarrow> p < length (tbls h)"
  unfolding heap_ok_def by blast

lemma heap_okD_below:
  "heap_ok h \<Longrightarrow> a < length (objs h) \<Longrightarrow> p \<in> points_to (objs h ! a)
     \<Longrightarrow> c \<in> cells_of (tbls h ! p) \<Longrightarrow> c < a"
  unfolding heap_ok_def by blast

lemma heap_okI:
  assumes "\<And>t. t < length (tbls h) \<Longrightarrow> CTable_inv (tbls h ! t)"
    and "\<And>t c. t < length (tbls h) \<Longrightarrow> c \<in> cells_of (tbls h ! t) \<Longrightarrow> c < length (objs h)"
    and "\<And>a p. a < length (objs h) \<Longrightarrow> p \<in> points_to (objs h ! a) \<Longrightarrow> p < length (tbls h)"
    and "\<And>a p c. a < length (objs h) \<Longrightarrow> p \<in> points_to (objs h ! a)
           \<Longrightarrow> c \<in> cells_of (tbls h ! p) \<Longrightarrow> c < a"
  shows "heap_ok h"
  unfolding heap_ok_def using assms by blast

lemma old_object_index:
  assumes "extends h h'" "a < length (objs h')"
  obtains b where "b < length (objs h)" "objs h' ! a = objs h ! b" "b \<le> a"
proof (cases "a < length (objs h)")
  case True
  then show ?thesis using extends_nth[OF assms(1)] that by auto
next
  case False
  from extends_old_object[OF assms] obtain b where b: "b < length (objs h)" "objs h ! b = objs h' ! a"
    by (auto simp: in_set_conv_nth)
  with False show ?thesis using that[of b] by simp
qed

lemma heap_ok_extends:
  assumes ok: "heap_ok h" and ext: "extends h h'"
  shows "heap_ok h'"
proof (rule heap_okI)
  note T = extends_tbls[OF ext]
  fix t assume "t < length (tbls h')"
  then have t: "t < length (tbls h)" by (simp add: T)
  show "CTable_inv (tbls h' ! t)" using heap_okD_inv[OF ok t] by (simp add: T)
  fix c assume "c \<in> cells_of (tbls h' ! t)"
  then have "c < length (objs h)" using heap_okD_cells[OF ok t] by (simp add: T)
  then show "c < length (objs h')" using extends_length[OF ext] by simp
next
  note T = extends_tbls[OF ext]
  fix a p assume a: "a < length (objs h')" and p: "p \<in> points_to (objs h' ! a)"
  from old_object_index[OF ext a] obtain b where
    b: "b < length (objs h)" "objs h' ! a = objs h ! b" "b \<le> a" by blast
  from p b have pb: "p \<in> points_to (objs h ! b)" by simp
  show "p < length (tbls h')" using heap_okD_ptr[OF ok b(1) pb] by (simp add: T)
  fix c assume "c \<in> cells_of (tbls h' ! p)"
  then have "c \<in> cells_of (tbls h ! p)" by (simp add: T)
  from heap_okD_below[OF ok b(1) pb this] b(3) show "c < a" by simp
qed

lemma user_table_extends:
  assumes "user_table h q" "extends h h'"
  shows "user_table h' q"
proof -
  have "q \<notin> points_to (objs h' ! a)" if a: "a < length (objs h')" for a
  proof -
    from old_object_index[OF assms(2) a] obtain b where
      b: "b < length (objs h)" "objs h' ! a = objs h ! b" by blast
    with assms(1) show ?thesis by (simp add: user_table_def)
  qed
  with assms show ?thesis by (simp add: user_table_def extends_tbls)
qed

lemma grids_disjoint_extends: "grids_disjoint h \<Longrightarrow> extends h h' \<Longrightarrow> grids_disjoint h'"
  by (simp add: grids_disjoint_def extends_tbls)

lemma heap_ok_new_table:
  assumes ok: "heap_ok h" and inv: "CTable_inv T"
    and cells: "\<And>c. c \<in> cells_of T \<Longrightarrow> c < length (objs h)"
  shows "heap_ok (h\<lparr>tbls := tbls h @ [T]\<rparr>)"
proof (rule heap_okI)
  fix t assume t: "t < length (tbls (h\<lparr>tbls := tbls h @ [T]\<rparr>))"
  show "CTable_inv (tbls (h\<lparr>tbls := tbls h @ [T]\<rparr>) ! t)"
    using t inv heap_okD_inv[OF ok, of t] by (cases "t < length (tbls h)") (simp_all add: nth_append)
  fix c assume "c \<in> cells_of (tbls (h\<lparr>tbls := tbls h @ [T]\<rparr>) ! t)"
  then show "c < length (objs (h\<lparr>tbls := tbls h @ [T]\<rparr>))"
    using t cells[of c] heap_okD_cells[OF ok, of t c]
    by (cases "t < length (tbls h)") (simp_all add: nth_append)
next
  fix a p assume a: "a < length (objs (h\<lparr>tbls := tbls h @ [T]\<rparr>))"
    and p: "p \<in> points_to (objs (h\<lparr>tbls := tbls h @ [T]\<rparr>) ! a)"
  then have a': "a < length (objs h)" and p': "p \<in> points_to (objs h ! a)" by simp_all
  have pl: "p < length (tbls h)" by (rule heap_okD_ptr[OF ok a' p'])
  then show "p < length (tbls (h\<lparr>tbls := tbls h @ [T]\<rparr>))" by simp
  fix c assume "c \<in> cells_of (tbls (h\<lparr>tbls := tbls h @ [T]\<rparr>) ! p)"
  then have "c \<in> cells_of (tbls h ! p)" using pl by (simp add: nth_append)
  then show "c < a" by (rule heap_okD_below[OF ok a' p'])
qed

lemma user_table_new_table:
  "user_table h q \<Longrightarrow> user_table (h\<lparr>tbls := tbls h @ [T]\<rparr>) q"
  by (simp add: user_table_def)

lemma grids_disjoint_new_table:
  assumes "grids_disjoint h"
    and "\<And>t. t < length (tbls h) \<Longrightarrow> cells_of (tbls h ! t) \<inter> cells_of T = {}"
  shows "grids_disjoint (h\<lparr>tbls := tbls h @ [T]\<rparr>)"
  unfolding grids_disjoint_def
proof (intro allI impI)
  fix t u
  assume t: "t < length (tbls (h\<lparr>tbls := tbls h @ [T]\<rparr>))"
    and u: "u < length (tbls (h\<lparr>tbls := tbls h @ [T]\<rparr>))" and ne: "t \<noteq> u"
  consider "t < length (tbls h)" "u < length (tbls h)"
    | "t < length (tbls h)" "u = length (tbls h)"
    | "t = length (tbls h)" "u < length (tbls h)"
    using t u ne by (simp add: less_Suc_eq) arith
  then show "cells_of (tbls (h\<lparr>tbls := tbls h @ [T]\<rparr>) ! t)
               \<inter> cells_of (tbls (h\<lparr>tbls := tbls h @ [T]\<rparr>) ! u) = {}"
  proof cases
    case 1
    with assms(1) ne show ?thesis by (simp add: grids_disjoint_def nth_append)
  next
    case 2
    with assms(2)[of t] show ?thesis by (simp add: nth_append)
  next
    case 3
    with assms(2)[of u] show ?thesis by (simp add: nth_append Int_commute)
  qed
qed

lemma heap_ok_new_tablecell:
  assumes ok: "heap_ok h" and p: "p < length (tbls h)"
  shows "heap_ok (h\<lparr>objs := objs h @ [CTableCell p]\<rparr>)"
proof (rule heap_okI)
  fix t assume t: "t < length (tbls (h\<lparr>objs := objs h @ [CTableCell p]\<rparr>))"
  then show "CTable_inv (tbls (h\<lparr>objs := objs h @ [CTableCell p]\<rparr>) ! t)"
    using heap_okD_inv[OF ok, of t] by simp
  fix c assume "c \<in> cells_of (tbls (h\<lparr>objs := objs h @ [CTableCell p]\<rparr>) ! t)"
  then show "c < length (objs (h\<lparr>objs := objs h @ [CTableCell p]\<rparr>))"
    using t heap_okD_cells[OF ok, of t c] by simp
next
  fix a q assume a: "a < length (objs (h\<lparr>objs := objs h @ [CTableCell p]\<rparr>))"
    and q: "q \<in> points_to (objs (h\<lparr>objs := objs h @ [CTableCell p]\<rparr>) ! a)"
  show "q < length (tbls (h\<lparr>objs := objs h @ [CTableCell p]\<rparr>))"
  proof (cases "a < length (objs h)")
    case True
    with q have "q \<in> points_to (objs h ! a)" by (simp add: nth_append)
    from heap_okD_ptr[OF ok True this] show ?thesis by simp
  next
    case False
    with a have "a = length (objs h)" by simp
    with q have "q = p" by (simp add: points_to_def)
    with p show ?thesis by simp
  qed
  fix c assume c: "c \<in> cells_of (tbls (h\<lparr>objs := objs h @ [CTableCell p]\<rparr>) ! q)"
  show "c < a"
  proof (cases "a < length (objs h)")
    case True
    with q have "q \<in> points_to (objs h ! a)" by (simp add: nth_append)
    from heap_okD_below[OF ok True this] c show ?thesis by simp
  next
    case False
    with a have al: "a = length (objs h)" by simp
    with q have "q = p" by (simp add: points_to_def)
    with c p heap_okD_cells[OF ok, of p c] al show ?thesis by simp
  qed
qed

lemma user_table_new_tablecell:
  assumes "user_table h q" "q \<noteq> p"
  shows "user_table (h\<lparr>objs := objs h @ [CTableCell p]\<rparr>) q"
proof -
  have "q \<notin> points_to ((objs h @ [CTableCell p]) ! a)" if "a < Suc (length (objs h))" for a
  proof (cases "a < length (objs h)")
    case True
    with assms(1) show ?thesis by (simp add: user_table_def nth_append)
  next
    case False
    with that have "a = length (objs h)" by simp
    with assms(2) show ?thesis by (simp add: points_to_def)
  qed
  with assms(1) show ?thesis by (simp add: user_table_def)
qed

lemma update_grid_nth:
  assumes "r < length g" "c < length (g ! r)"
  shows "g[row := (g ! row)[col := a]] ! r ! c = (if r = row \<and> c = col then a else g ! r ! c)"
  using assms by (cases "r = row") (simp_all add: nth_list_update)

lemma update_grid_lengths:
  "length (g[row := (g ! row)[col := a]]) = length g"
  "r < length g \<Longrightarrow> length (g[row := (g ! row)[col := a]] ! r) = length (g ! r)"
  by (simp, cases "r = row") simp_all

lemma update_grid_cells:
  assumes "x \<in> (\<Union>rw\<in>set (g[row := (g ! row)[col := a]]). set rw)"
  shows "x = a \<or> x \<in> (\<Union>rw\<in>set g. set rw)"
proof -
  from assms obtain rw where rw: "rw \<in> set (g[row := (g ! row)[col := a]])" "x \<in> set rw" by blast
  have "rw \<in> set g \<or> rw = (g ! row)[col := a] \<and> row < length g"
  proof (cases "row < length g")
    case True
    from rw(1) have "rw \<in> insert ((g ! row)[col := a]) (set g)"
      using set_update_subset_insert by fastforce
    with True show ?thesis by blast
  next
    case False
    then have "g[row := (g ! row)[col := a]] = g" by (simp add: list_update_beyond)
    with rw(1) show ?thesis by simp
  qed
  then consider "rw \<in> set g" | "rw = (g ! row)[col := a]" "row < length g"
    by blast
  then show ?thesis
  proof cases
    case 1
    with rw(2) show ?thesis by blast
  next
    case 2
    with rw(2) have "x \<in> insert a (set (g ! row))"
      using set_update_subset_insert by fastforce
    moreover have "g ! row \<in> set g" using 2(2) by simp
    ultimately show ?thesis by blast
  qed
qed

lemma store_cell_put: "store_cell h t row col a = h\<lparr>tbls := (tbls h)[t := put_cell (tbls h ! t) row col a]\<rparr>"
  by (simp add: store_cell_def put_cell_def Let_def)

lemma put_cell_dims [simp]:
  "Rows (put_cell T row col a) = Rows T" "Cols (put_cell T row col a) = Cols T"
  by (simp_all add: put_cell_def)

lemma put_cell_inv: "CTable_inv T \<Longrightarrow> CTable_inv (put_cell T row col a)"
proof -
  assume inv: "CTable_inv T"
  have "length rw = Cols T" if "rw \<in> set ((Cells T)[row := (Cells T ! row)[col := a]])" for rw
  proof -
    from that obtain r where r: "r < length (Cells T)" "rw = (Cells T)[row := (Cells T ! row)[col := a]] ! r"
      by (auto simp: in_set_conv_nth)
    then have "length rw = length (Cells T ! r)" by (simp add: update_grid_lengths(2))
    with inv r(1) show ?thesis by (simp add: CTable_inv_def)
  qed
  with inv show ?thesis by (simp add: CTable_inv_def put_cell_def)
qed

lemma put_cell_cells: "x \<in> cells_of (put_cell T row col a) \<Longrightarrow> x = a \<or> x \<in> cells_of T"
  unfolding cells_of_def put_cell_def using update_grid_cells[of x "Cells T" row col a] by simp

lemma put_cell_nth:
  assumes "CTable_inv T" "r < Rows T" "c < Cols T"
  shows "Cells (put_cell T row col a) ! r ! c
           = (if r = row \<and> c = col then a else Cells T ! r ! c)"
proof -
  from assms have "r < length (Cells T)" "c < length (Cells T ! r)"
    by (simp_all add: CTable_inv_def)
  then show ?thesis unfolding put_cell_def by (simp add: update_grid_nth)
qed

lemma heap_ok_store_cell:
  assumes ok: "heap_ok h" and ut: "user_table h t" and a: "a < length (objs h)"
  shows "heap_ok (store_cell h t row col a)"
  unfolding store_cell_put
proof (rule heap_okI)
  let ?h = "h\<lparr>tbls := (tbls h)[t := put_cell (tbls h ! t) row col a]\<rparr>"
  from ut have t: "t < length (tbls h)" by (simp add: user_table_def)
  fix u assume "u < length (tbls ?h)"
  then have u: "u < length (tbls h)" by simp
  show "CTable_inv (tbls ?h ! u)"
    using put_cell_inv[OF heap_okD_inv[OF ok t]] heap_okD_inv[OF ok u] u
    by (cases "u = t") simp_all
  fix c assume c: "c \<in> cells_of (tbls ?h ! u)"
  show "c < length (objs ?h)"
  proof (cases "u = t")
    case True
    with c t have "c \<in> cells_of (put_cell (tbls h ! t) row col a)" by simp
    from put_cell_cells[OF this] a heap_okD_cells[OF ok t, of c] show ?thesis by auto
  next
    case False
    with c u heap_okD_cells[OF ok u, of c] show ?thesis by simp
  qed
next
  let ?h = "h\<lparr>tbls := (tbls h)[t := put_cell (tbls h ! t) row col a]\<rparr>"
  fix b p assume "b < length (objs ?h)" "p \<in> points_to (objs ?h ! b)"
  then have b: "b < length (objs h)" and p: "p \<in> points_to (objs h ! b)" by simp_all
  from heap_okD_ptr[OF ok b p] show "p < length (tbls ?h)" by simp
  from ut b p have "p \<noteq> t" by (auto simp: user_table_def)
  then have same: "tbls ?h ! p = tbls h ! p" by simp
  fix c assume "c \<in> cells_of (tbls ?h ! p)"
  then have "c \<in> cells_of (tbls h ! p)" by (simp only: same)
  then show "c < b" by (rule heap_okD_below[OF ok b p])
qed

lemma user_table_store_cell: "user_table h q \<Longrightarrow> user_table (store_cell h t row col a) q"
  by (simp add: user_table_def store_cell_put)

lemma grids_disjoint_store_cell:
  assumes gd: "grids_disjoint h" and t: "t < length (tbls h)"
    and fresh: "\<And>u. u < length (tbls h) \<Longrightarrow> u \<noteq> t \<Longrightarrow> a \<notin> cells_of (tbls h ! u)"
  shows "grids_disjoint (store_cell h t row col a)"
  unfolding store_cell_put grids_disjoint_def
proof (intro allI impI)
  let ?h = "h\<lparr>tbls := (tbls h)[t := put_cell (tbls h ! t) row col a]\<rparr>"
  fix u v assume "u < length (tbls ?h)" "v < length (tbls ?h)" and ne: "u \<noteq> v"
  then have u: "u < length (tbls h)" and v: "v < length (tbls h)" by simp_all
  have old: "cells_of (tbls h ! u) \<inter> cells_of (tbls h ! v) = {}"
    using gd u v ne by (simp add: grids_disjoint_def)
  have one: "cells_of (put_cell (tbls h ! t) row col a) \<inter> cells_of (tbls h ! w) = {}"
    if w: "w < length (tbls h)" "w \<noteq> t" for w
  proof -
    have "cells_of (tbls h ! t) \<inter> cells_of (tbls h ! w) = {}"
      using gd t w by (simp add: grids_disjoint_def)
    moreover have "a \<notin> cells_of (tbls h ! w)" by (rule fresh[OF w])
    ultimately show ?thesis using put_cell_cells[of _ "tbls h ! t" row col a] by blast
  qed
  show "cells_of (tbls ?h ! u) \<inter> cells_of (tbls ?h ! v) = {}"
  proof (cases "u = t")
    case True
    with ne have "v \<noteq> t" by simp
    with True t v one[of v] show ?thesis by simp
  next
    case False
    show ?thesis
    proof (cases "v = t")
      case True
      with False t u one[of u] show ?thesis by (simp add: Int_commute)
    next
      case vf: False
      with False old u v show ?thesis by simp
    qed
  qed
qed

section \<open>What the constructor of CTableCell builds\<close>

lemma list_all2_in_set1: "list_all2 P xs ys \<Longrightarrow> x \<in> set xs \<Longrightarrow> \<exists>y\<in>set ys. P x y"
  by (induction rule: list_all2_induct) auto

lemma is_copy_inv:
  assumes "is_copy h h' T' T" "CTable_inv T"
  shows "CTable_inv T'"
proof -
  from assms(1) have d: "Rows T' = Rows T" "Cols T' = Cols T"
    and l: "list_all2 (list_all2 (is_clone h h')) (Cells T') (Cells T)"
    by (simp_all add: is_copy_def)
  have "length (Cells T') = Rows T'"
    using list_all2_lengthD[OF l] assms(2) d by (simp add: CTable_inv_def)
  moreover have "length rw' = Cols T'" if "rw' \<in> set (Cells T')" for rw'
  proof -
    from list_all2_in_set1[OF l that] obtain rw where
      rw: "rw \<in> set (Cells T)" "list_all2 (is_clone h h') rw' rw" by blast
    from list_all2_lengthD[OF rw(2)] rw(1) assms(2) d show ?thesis by (simp add: CTable_inv_def)
  qed
  ultimately show ?thesis by (simp add: CTable_inv_def)
qed

lemma is_copy_cells:
  assumes "is_copy h h' T' T" "c \<in> cells_of T'"
  shows "length (objs h) \<le> c \<and> c < length (objs h')"
proof -
  from assms(1) have l: "list_all2 (list_all2 (is_clone h h')) (Cells T') (Cells T)"
    by (simp add: is_copy_def)
  from assms(2) obtain rw' where rw': "rw' \<in> set (Cells T')" "c \<in> set rw'"
    by (auto simp: cells_of_def)
  from list_all2_in_set1[OF l rw'(1)] obtain rw where "list_all2 (is_clone h h') rw' rw" by blast
  from list_all2_in_set1[OF this rw'(2)] show ?thesis by (auto simp: is_clone_def)
qed

lemma is_copy_nth:
  assumes "is_copy h h' T' T" "CTable_inv T" "r < Rows T" "c < Cols T"
  shows "is_clone h h' (Cells T' ! r ! c) (Cells T ! r ! c)"
proof -
  from assms(1) have l: "list_all2 (list_all2 (is_clone h h')) (Cells T') (Cells T)"
    by (simp add: is_copy_def)
  from assms(2,3,4) have r: "r < length (Cells T)" and c: "c < length (Cells T ! r)"
    by (simp_all add: CTable_inv_def)
  from list_all2_nthD2[OF l r] have "list_all2 (is_clone h h') (Cells T' ! r) (Cells T ! r)" .
  from list_all2_nthD2[OF this c] show ?thesis .
qed

lemma CTable_copy_spec:
  assumes ok: "heap_ok h" and u: "u < length (tbls h)" and copy: "CTable_copy h u = (h2, p)"
  obtains h' T0 where "extends h h'" "is_copy h h' T0 (tbls h ! u)"
    "h2 = h'\<lparr>tbls := tbls h @ [T0]\<rparr>" "p = length (tbls h)"
proof -
  let ?U = "tbls h ! u"
  have inv: "CTable_inv ?U" by (rule heap_okD_inv[OF ok u])
  obtain h' g where g: "clone_grid h (Cells ?U) = (h', g)" by (cases "clone_grid h (Cells ?U)")
  have "\<forall>row\<in>set (Cells ?U). \<forall>a\<in>set row. a < length (objs h)"
    using heap_okD_cells[OF ok u] by (auto simp: cells_of_def)
  from clone_grid_rel[OF this g]
  have ext: "extends h h'" and rel: "list_all2 (list_all2 (is_clone h h')) g (Cells ?U)" by blast+
  let ?T0 = "\<lparr>Rows = Rows ?U, Cols = Cols ?U, Cells = g\<rparr>"
  have "is_copy h h' ?T0 ?U" using rel by (simp add: is_copy_def)
  moreover from copy g have "h2 = h'\<lparr>tbls := tbls h @ [?T0]\<rparr>" "p = length (tbls h)"
    by (simp_all add: CTable_copy_def Let_def grid_addrs_inv[OF inv] new_table_def
        extends_tbls[OF ext])
  ultimately show ?thesis using ext that by blast
qed

lemma CTableCell_ctor_spec:
  assumes ok: "heap_ok h" and u: "u < length (tbls h)" and ctor: "CTableCell_ctor h u = (h1, a)"
  obtains h' T0 where "extends h h'" "is_copy h h' T0 (tbls h ! u)"
    "h1 = h'\<lparr>tbls := tbls h @ [T0], objs := objs h' @ [CTableCell (length (tbls h))]\<rparr>"
    "a = length (objs h')"
proof -
  obtain h2 p where copy: "CTable_copy h u = (h2, p)" by (cases "CTable_copy h u")
  from CTable_copy_spec[OF ok u copy] obtain h' T0 where
    *: "extends h h'" "is_copy h h' T0 (tbls h ! u)" "h2 = h'\<lparr>tbls := tbls h @ [T0]\<rparr>"
       "p = length (tbls h)" by blast
  from ctor copy * have "h1 = h'\<lparr>tbls := tbls h @ [T0], objs := objs h' @ [CTableCell (length (tbls h))]\<rparr>"
    "a = length (objs h')"
    by (simp_all add: CTableCell_ctor_def new_obj_def)
  with * that show ?thesis by blast
qed

lemma CTableCell_ctor_ok:
  assumes ok: "heap_ok h" and u: "u < length (tbls h)" and ctor: "CTableCell_ctor h u = (h1, a)"
  shows "heap_ok h1"
    and "grids_disjoint h \<Longrightarrow> grids_disjoint h1"
    and "\<And>q. user_table h q \<Longrightarrow> user_table h1 q"
    and "a < length (objs h1)"
    and "\<And>w c. w < length (tbls h1) \<Longrightarrow> c \<in> cells_of (tbls h1 ! w) \<Longrightarrow> c < a"
proof -
  from CTableCell_ctor_spec[OF ok u ctor] obtain h' T0 where
    ext: "extends h h'" and cp: "is_copy h h' T0 (tbls h ! u)"
    and h1: "h1 = h'\<lparr>tbls := tbls h @ [T0], objs := objs h' @ [CTableCell (length (tbls h))]\<rparr>"
    and a: "a = length (objs h')" by blast
  have T': "tbls h' = tbls h" by (rule extends_tbls[OF ext])
  let ?h2 = "h'\<lparr>tbls := tbls h' @ [T0]\<rparr>"
  have h1': "h1 = ?h2\<lparr>objs := objs ?h2 @ [CTableCell (length (tbls h))]\<rparr>"
    by (simp add: h1 T')
  have ok': "heap_ok h'" by (rule heap_ok_extends[OF ok ext])
  have inv0: "CTable_inv T0" by (rule is_copy_inv[OF cp heap_okD_inv[OF ok u]])
  have ok2: "heap_ok ?h2"
    by (rule heap_ok_new_table[OF ok' inv0]) (use is_copy_cells[OF cp] in blast)
  show "heap_ok h1"
    unfolding h1' by (rule heap_ok_new_tablecell[OF ok2]) (simp add: T')
  show "a < length (objs h1)" by (simp add: h1 a)
  show "grids_disjoint h1" if gd: "grids_disjoint h"
  proof -
    have "cells_of (tbls h' ! t) \<inter> cells_of T0 = {}" if t: "t < length (tbls h')" for t
    proof -
      have "c < length (objs h)" if "c \<in> cells_of (tbls h' ! t)" for c
        using heap_okD_cells[OF ok, of t c] t that by (simp add: T')
      moreover have "length (objs h) \<le> c" if "c \<in> cells_of T0" for c
        using is_copy_cells[OF cp that] by simp
      ultimately show ?thesis by fastforce
    qed
    from grids_disjoint_new_table[OF grids_disjoint_extends[OF gd ext] this]
    show ?thesis by (simp add: h1' grids_disjoint_def)
  qed
  show "user_table h1 q" if q: "user_table h q" for q
  proof -
    from q have "q \<noteq> length (tbls h)" by (simp add: user_table_def)
    from user_table_new_tablecell[OF user_table_new_table[OF user_table_extends[OF q ext]] this]
    show ?thesis unfolding h1' .
  qed
  show "c < a" if w: "w < length (tbls h1)" and c: "c \<in> cells_of (tbls h1 ! w)" for w c
  proof (cases "w < length (tbls h)")
    case True
    with c have "c \<in> cells_of (tbls h ! w)" by (simp add: h1 nth_append)
    from heap_okD_cells[OF ok True this] extends_length[OF ext] show ?thesis by (simp add: a)
  next
    case False
    with w have "w = length (tbls h)" by (simp add: h1)
    with c have "c \<in> cells_of T0" by (simp add: h1)
    from is_copy_cells[OF cp this] show ?thesis by (simp add: a)
  qed
qed

section \<open>What a table other than the one being changed can reach\<close>

lemma closed_others:
  assumes ok: "heap_ok h" and ut: "user_table h t"
  shows "closed h (their_cells h t) (others h t)"
  unfolding closed_def
proof (intro conjI ballI allI impI subsetI)
  fix a p assume a: "a \<in> their_cells h t" and p: "p \<in> points_to (objs h ! a)"
  from a obtain q where q: "q < length (tbls h)" "a \<in> cells_of (tbls h ! q)"
    by (auto simp: their_cells_def others_def)
  have al: "a < length (objs h)" by (rule heap_okD_cells[OF ok q])
  from heap_okD_ptr[OF ok al p] ut al p show "p \<in> others h t"
    by (auto simp: others_def user_table_def)
next
  fix q r c assume q: "q \<in> others h t" and rc: "r < Rows (tbls h ! q)" "c < Cols (tbls h ! q)"
  from q have ql: "q < length (tbls h)" by (simp add: others_def)
  from cell_in_cells_of[OF heap_okD_inv[OF ok ql] rc] q
  show "Cells (tbls h ! q) ! r ! c \<in> their_cells h t" by (auto simp: their_cells_def)
qed

lemma their_cells_old:
  "heap_ok h \<Longrightarrow> a \<in> their_cells h t \<Longrightarrow> a < length (objs h)"
  by (auto simp: their_cells_def others_def dest: heap_okD_cells)

lemma their_cells_not_own:
  assumes "grids_disjoint h" "t < length (tbls h)" "a \<in> their_cells h t"
  shows "a \<notin> cells_of (tbls h ! t)"
proof -
  from assms(3) obtain q where q: "q < length (tbls h)" "q \<noteq> t" "a \<in> cells_of (tbls h ! q)"
    by (auto simp: their_cells_def others_def)
  with assms(1,2) have "cells_of (tbls h ! q) \<inter> cells_of (tbls h ! t) = {}"
    by (simp add: grids_disjoint_def)
  with q(3) show ?thesis by blast
qed

lemma agree_others:
  assumes ok: "heap_ok h" and touch: "only_touches h h' t X"
    and X: "X = {} \<or> grids_disjoint h \<and> t < length (tbls h) \<and> X \<subseteq> cells_of (tbls h ! t)"
  shows "agree h h' (their_cells h t) (others h t)"
  unfolding agree_def
proof (intro conjI ballI)
  fix a assume a: "a \<in> their_cells h t"
  have "a \<notin> X" using X their_cells_not_own[of h t a] a by blast
  with their_cells_old[OF ok a] touch
  show "objs h' ! a = objs h ! a" by (simp add: only_touches_def)
next
  fix q assume "q \<in> others h t"
  with touch show "tbls h' ! q = tbls h ! q" by (simp add: only_touches_def others_def)
qed

lemma others_unchanged:
  assumes ok: "heap_ok h" and ut: "user_table h t" and touch: "only_touches h h' t X"
    and X: "X = {} \<or> grids_disjoint h \<and> t < length (tbls h) \<and> X \<subseteq> cells_of (tbls h ! t)"
  shows "q \<in> others h t \<Longrightarrow> render n h' q = render n h q"
    and "a \<in> their_cells h t \<Longrightarrow> Width n h' a = Width n h a"
    and "a \<in> their_cells h t \<Longrightarrow> Height n h' a = Height n h a"
    and "a \<in> their_cells h t \<Longrightarrow> Output n h' a = Output n h a"
proof -
  note F = frame[OF closed_others[OF ok ut] agree_others[OF ok touch X], of n]
  show "q \<in> others h t \<Longrightarrow> render n h' q = render n h q" using F by blast
  show "a \<in> their_cells h t \<Longrightarrow> Width n h' a = Width n h a" using F by blast
  show "a \<in> their_cells h t \<Longrightarrow> Height n h' a = Height n h a" using F by blast
  show "a \<in> their_cells h t \<Longrightarrow> Output n h' a = Output n h a" using F by blast
qed

text \<open>An object with the same fields renders the same, wherever it is stored.\<close>

lemma same_object_renders_same:
  assumes obj: "objs h' ! a' = objs h ! a"
    and ptr: "\<And>p. p \<in> points_to (objs h ! a) \<Longrightarrow> \<forall>m. render m h' p = render m h p"
  shows "Width n h' a' = Width n h a \<and> Height n h' a' = Height n h a
         \<and> Output n h' a' = Output n h a"
proof (cases n)
  case 0
  then show ?thesis by (simp add: fun_eq_iff)
next
  case (Suc m)
  show ?thesis
  proof (cases "objs h ! a")
    case (CTableCell p)
    then have "render m h' p = render m h p" using ptr by (simp add: points_to_def)
    with CTableCell obj show ?thesis by (simp add: Suc fun_eq_iff)
  qed (use obj in \<open>simp_all add: Suc fun_eq_iff\<close>)
qed

section \<open>Storing a snapshot of a table in a cell\<close>

lemma pointers_are_others:
  assumes ok: "heap_ok h" and ut: "user_table h t" and a: "a < length (objs h)"
    and p: "p \<in> points_to (objs h ! a)"
  shows "p \<in> others h t"
  using heap_okD_ptr[OF ok a p] ut a p by (auto simp: others_def user_table_def)

lemma setCell_table_effect:
  assumes ok: "heap_ok h" and ut: "user_table h t" and u: "u < length (tbls h)"
    and rng: "in_range (tbls h ! t) row col"
  obtains h2 a where
    "setCell_table h t row col u = Inr h2"
    "heap_ok h2"
    "grids_disjoint h \<Longrightarrow> grids_disjoint h2"
    "\<And>q. user_table h q \<Longrightarrow> user_table h2 q"
    "only_touches h h2 t {}"
    "tbls h2 ! t = put_cell (tbls h ! t) row col a"
    "length (objs h) \<le> a" "a < length (objs h2)"
    "objs h2 ! a = CTableCell (length (tbls h))"
    "length (tbls h2) = Suc (length (tbls h))"
    "\<And>n. render n h2 (length (tbls h)) = render n h u"
proof -
  from ut have t: "t < length (tbls h)" by (simp add: user_table_def)
  obtain h1 a where ctor: "CTableCell_ctor h u = (h1, a)" by (cases "CTableCell_ctor h u")
  from CTableCell_ctor_spec[OF ok u ctor] obtain h' T0 where
    ext: "extends h h'" and cp: "is_copy h h' T0 (tbls h ! u)"
    and h1: "h1 = h'\<lparr>tbls := tbls h @ [T0], objs := objs h' @ [CTableCell (length (tbls h))]\<rparr>"
    and a: "a = length (objs h')" by blast
  note K = CTableCell_ctor_ok[OF ok u ctor]
  define h2 where "h2 = store_cell h1 t row col a"
  have t1: "tbls h1 ! t = tbls h ! t" using t by (simp add: h1 nth_append)
  have res: "setCell_table h t row col u = Inr h2"
    using rng by (simp add: setCell_table_def ctor t1 h2_def)
  have ut1: "user_table h1 t" by (rule K(3)[OF ut])
  have ok2: "heap_ok h2" unfolding h2_def by (rule heap_ok_store_cell[OF K(1) ut1 K(4)])
  have gd2: "grids_disjoint h2" if "grids_disjoint h"
    unfolding h2_def
  proof (rule grids_disjoint_store_cell[OF K(2)[OF that]])
    show "t < length (tbls h1)" using ut1 by (simp add: user_table_def)
    fix w assume "w < length (tbls h1)"
    then show "a \<notin> cells_of (tbls h1 ! w)" using K(5)[of w a] by blast
  qed
  have ut2: "user_table h2 q" if "user_table h q" for q
    unfolding h2_def by (rule user_table_store_cell[OF K(3)[OF that]])
  have objs2: "objs h2 = objs h' @ [CTableCell (length (tbls h))]"
    by (simp add: h2_def store_cell_put h1)
  have tbls2: "tbls h2 = (tbls h @ [T0])[t := put_cell (tbls h ! t) row col a]"
    using t by (simp add: h2_def store_cell_put h1 nth_append)
  have old_obj: "objs h2 ! b = objs h ! b" if "b < length (objs h)" for b
    using extends_nth[OF ext that] that extends_length[OF ext] by (simp add: objs2 nth_append)
  have old_tbl: "tbls h2 ! q = tbls h ! q" if "q < length (tbls h)" "q \<noteq> t" for q
    using that by (simp add: tbls2 nth_append)
  have touch: "only_touches h h2 t {}"
    using old_obj old_tbl by (simp add: only_touches_def)
  have tt: "tbls h2 ! t = put_cell (tbls h ! t) row col a"
    using t by (simp add: tbls2)
  have snap: "tbls h2 ! length (tbls h) = T0"
    using t by (simp add: tbls2)
  have render_same: "render n h2 (length (tbls h)) = render n h u" for n
  proof (cases n)
    case 0
    then show ?thesis by simp
  next
    case (Suc m)
    let ?U = "tbls h ! u"
    have inv: "CTable_inv ?U" by (rule heap_okD_inv[OF ok u])
    from cp have dims: "Rows T0 = Rows ?U" "Cols T0 = Cols ?U" by (simp_all add: is_copy_def)
    have cell: "Width m h2 (Cells T0 ! r ! c) = Width m h (Cells ?U ! r ! c)
             \<and> Height m h2 (Cells T0 ! r ! c) = Height m h (Cells ?U ! r ! c)
             \<and> Output m h2 (Cells T0 ! r ! c) = Output m h (Cells ?U ! r ! c)"
      if rc: "r < Rows ?U" "c < Cols ?U" for r c
    proof (rule same_object_renders_same)
      from is_copy_nth[OF cp inv rc]
      have cl: "Cells T0 ! r ! c < length (objs h')"
        "objs h' ! (Cells T0 ! r ! c) = objs h ! (Cells ?U ! r ! c)"
        by (simp_all add: is_clone_def)
      then show "objs h2 ! (Cells T0 ! r ! c) = objs h ! (Cells ?U ! r ! c)"
        by (simp add: objs2 nth_append)
      fix p assume p: "p \<in> points_to (objs h ! (Cells ?U ! r ! c))"
      have "Cells ?U ! r ! c < length (objs h)"
        by (rule heap_okD_cells[OF ok u cell_in_cells_of[OF inv rc]])
      from pointers_are_others[OF ok ut this p]
      show "\<forall>k. render k h2 p = render k h p"
        using others_unchanged(1)[OF ok ut touch] by blast
    qed
    show ?thesis
      unfolding Suc render_Suc snap
      by (rule layout_cong) (use dims cell in simp_all)
  qed
  show ?thesis
  proof (rule that[of h2 a])
    show "length (objs h) \<le> a" using extends_length[OF ext] by (simp add: a)
    show "a < length (objs h2)" by (simp add: objs2 a)
    show "objs h2 ! a = CTableCell (length (tbls h))" by (simp add: objs2 a)
    show "length (tbls h2) = Suc (length (tbls h))" by (simp add: tbls2)
  qed (use res ok2 gd2 ut2 touch tt render_same in blast)+
qed

section \<open>Calls on a table and what they change\<close>

lemma setCell_effect:
  assumes inv: "store_inv h" and ut: "user_table h t" and x: "x < length (objs h)"
    and res: "setCell h t row col x = Inr h2"
  shows "effect_ok h h2 t"
proof -
  from inv have ok: "heap_ok h" and gd: "grids_disjoint h" by (simp_all add: store_inv_def)
  from ut have t: "t < length (tbls h)" by (simp add: user_table_def)
  define h1 where "h1 = h\<lparr>objs := objs h @ [objs h ! x]\<rparr>"
  have cl: "Clone h x = (h1, length (objs h))" by (simp add: Clone_def new_obj_def h1_def)
  have ext: "extends h h1" by (rule Clone_extends[OF cl x])
  from res have h2: "h2 = store_cell h1 t row col (length (objs h))"
    by (simp add: setCell_def cl split: if_splits)
  have ok1: "heap_ok h1" by (rule heap_ok_extends[OF ok ext])
  have ut1: "user_table h1 t" by (rule user_table_extends[OF ut ext])
  have ok2: "heap_ok h2"
    unfolding h2 by (rule heap_ok_store_cell[OF ok1 ut1]) (simp add: h1_def)
  have gd2: "grids_disjoint h2"
    unfolding h2
  proof (rule grids_disjoint_store_cell[OF grids_disjoint_extends[OF gd ext]])
    show "t < length (tbls h1)" using t by (simp add: h1_def)
    fix u assume "u < length (tbls h1)"
    then have "u < length (tbls h)" by (simp add: h1_def)
    from heap_okD_cells[OF ok this, of "length (objs h)"]
    show "length (objs h) \<notin> cells_of (tbls h1 ! u)" by (auto simp: h1_def)
  qed
  have ut2: "user_table h2 q" if "user_table h q" for q
    unfolding h2 by (rule user_table_store_cell[OF user_table_extends[OF that ext]])
  have "only_touches h h2 t {}"
    by (simp add: only_touches_def h2 store_cell_put h1_def nth_append)
  moreover have "length (tbls h) \<le> length (tbls h2)" by (simp add: h2 store_cell_put h1_def)
  ultimately show ?thesis using ok2 gd2 ut2 unfolding effect_ok_def store_inv_def by blast
qed

lemma heap_ok_update_leaf:
  assumes ok: "heap_ok h" and leaf: "points_to x = {}"
  shows "heap_ok (h\<lparr>objs := (objs h)[a := x]\<rparr>)"
proof (rule heap_okI)
  let ?h = "h\<lparr>objs := (objs h)[a := x]\<rparr>"
  fix t assume "t < length (tbls ?h)"
  then have t: "t < length (tbls h)" by simp
  show "CTable_inv (tbls ?h ! t)" using heap_okD_inv[OF ok t] by simp
  fix c assume "c \<in> cells_of (tbls ?h ! t)"
  then show "c < length (objs ?h)" using heap_okD_cells[OF ok t, of c] by simp
next
  let ?h = "h\<lparr>objs := (objs h)[a := x]\<rparr>"
  fix b p assume b: "b < length (objs ?h)" and p: "p \<in> points_to (objs ?h ! b)"
  from b have bl: "b < length (objs h)" by simp
  from p leaf bl have ne: "b \<noteq> a" by (cases "b = a") auto
  with p have p': "p \<in> points_to (objs h ! b)" by simp
  show "p < length (tbls ?h)" using heap_okD_ptr[OF ok bl p'] by simp
  fix c assume "c \<in> cells_of (tbls ?h ! p)"
  then show "c < b" using heap_okD_below[OF ok bl p', of c] by simp
qed

lemma user_table_update_leaf:
  assumes "user_table h q" "points_to x = {}"
  shows "user_table (h\<lparr>objs := (objs h)[a := x]\<rparr>) q"
proof -
  have "q \<notin> points_to ((objs h)[a := x] ! b)" if "b < length (objs h)" for b
    using assms that by (cases "b = a") (simp_all add: user_table_def)
  with assms(1) show ?thesis by (simp add: user_table_def)
qed

lemma update_leaf_effect:
  assumes inv: "store_inv h" and t: "t < length (tbls h)" and leaf: "points_to x = {}"
    and a: "a \<in> cells_of (tbls h ! t)"
  shows "effect_ok h (h\<lparr>objs := (objs h)[a := x]\<rparr>) t"
proof -
  from inv have ok: "heap_ok h" and gd: "grids_disjoint h" by (simp_all add: store_inv_def)
  have "only_touches h (h\<lparr>objs := (objs h)[a := x]\<rparr>) t {a}"
    by (simp add: only_touches_def)
  moreover have "grids_disjoint (h\<lparr>objs := (objs h)[a := x]\<rparr>)"
    using gd by (simp add: grids_disjoint_def)
  ultimately show ?thesis
    unfolding effect_ok_def store_inv_def
    using heap_ok_update_leaf[OF ok leaf] user_table_update_leaf[OF _ leaf] a by auto
qed

lemma getCell_in_grid:
  assumes "getCell h t row col = Inr a"
  shows "a \<in> cells_of (tbls h ! t)"
proof -
  from assms have r: "row < length (Cells (tbls h ! t))"
    and c: "col < length (Cells (tbls h ! t) ! row)" and a: "a = Cells (tbls h ! t) ! row ! col"
    by (auto simp: getCell_def Let_def in_range_def split: if_splits)
  have "Cells (tbls h ! t) ! row \<in> set (Cells (tbls h ! t))" using r by simp
  moreover have "a \<in> set (Cells (tbls h ! t) ! row)" using c a by simp
  ultimately show ?thesis unfolding cells_of_def by blast
qed

lemma setText_effect:
  assumes inv: "store_inv h" and ut: "user_table h t"
    and res: "exec h (SetText t row col text) = Inr h2"
  shows "effect_ok h h2 t"
proof -
  from ut have t: "t < length (tbls h)" by (simp add: user_table_def)
  from res obtain a where a: "getCell h t row col = Inr a" and s: "setText_at h a text = Inr h2"
    by (auto split: sum.splits)
  from s obtain lines format where "h2 = h\<lparr>objs := (objs h)[a := CText (setText text) format]\<rparr>"
    by (auto simp: setText_at_def split: CBase.splits)
  then show ?thesis
    using update_leaf_effect[OF inv t _ getCell_in_grid[OF a], of "CText (setText text) format"]
    by (simp add: points_to_def)
qed

lemma addRow_effect:
  assumes inv: "store_inv h" and ut: "user_table h t"
    and res: "exec h (AddRow t row col r) = Inr h2"
  shows "effect_ok h h2 t"
proof -
  from ut have t: "t < length (tbls h)" by (simp add: user_table_def)
  from res obtain a where a: "getCell h t row col = Inr a" and s: "addRow_at h a r = Inr h2"
    by (auto split: sum.splits)
  from s obtain rows where "h2 = h\<lparr>objs := (objs h)[a := CImage (addRow rows r)]\<rparr>"
    by (auto simp: addRow_at_def split: CBase.splits)
  then show ?thesis
    using update_leaf_effect[OF inv t _ getCell_in_grid[OF a], of "CImage (addRow rows r)"]
    by (simp add: points_to_def)
qed

lemma heap_ok_replace_table:
  assumes ok: "heap_ok h" and ut: "user_table h t" and inv: "CTable_inv T"
    and cells: "\<And>c. c \<in> cells_of T \<Longrightarrow> c < length (objs h)"
  shows "heap_ok (h\<lparr>tbls := (tbls h)[t := T]\<rparr>)"
proof (rule heap_okI)
  let ?h = "h\<lparr>tbls := (tbls h)[t := T]\<rparr>"
  fix u assume "u < length (tbls ?h)"
  then have u: "u < length (tbls h)" by simp
  show "CTable_inv (tbls ?h ! u)"
    using inv heap_okD_inv[OF ok u] u by (cases "u = t") simp_all
  fix c assume "c \<in> cells_of (tbls ?h ! u)"
  then show "c < length (objs ?h)"
    using cells[of c] heap_okD_cells[OF ok u, of c] u by (cases "u = t") simp_all
next
  let ?h = "h\<lparr>tbls := (tbls h)[t := T]\<rparr>"
  fix b p assume "b < length (objs ?h)" "p \<in> points_to (objs ?h ! b)"
  then have b: "b < length (objs h)" and p: "p \<in> points_to (objs h ! b)" by simp_all
  from heap_okD_ptr[OF ok b p] show "p < length (tbls ?h)" by simp
  from ut b p have "p \<noteq> t" by (auto simp: user_table_def)
  then have same: "tbls ?h ! p = tbls h ! p" by simp
  fix c assume "c \<in> cells_of (tbls ?h ! p)"
  then have "c \<in> cells_of (tbls h ! p)" by (simp only: same)
  then show "c < b" by (rule heap_okD_below[OF ok b p])
qed

lemma grids_disjoint_replace_table:
  assumes gd: "grids_disjoint h" and t: "t < length (tbls h)"
    and fresh: "\<And>u. u < length (tbls h) \<Longrightarrow> u \<noteq> t \<Longrightarrow> cells_of T \<inter> cells_of (tbls h ! u) = {}"
  shows "grids_disjoint (h\<lparr>tbls := (tbls h)[t := T]\<rparr>)"
  unfolding grids_disjoint_def
proof (intro allI impI)
  let ?h = "h\<lparr>tbls := (tbls h)[t := T]\<rparr>"
  fix u v assume "u < length (tbls ?h)" "v < length (tbls ?h)" and ne: "u \<noteq> v"
  then have u: "u < length (tbls h)" and v: "v < length (tbls h)" by simp_all
  have old: "cells_of (tbls h ! u) \<inter> cells_of (tbls h ! v) = {}"
    using gd u v ne by (simp add: grids_disjoint_def)
  show "cells_of (tbls ?h ! u) \<inter> cells_of (tbls ?h ! v) = {}"
  proof (cases "u = t")
    case True
    with ne have "v \<noteq> t" by simp
    with True t v fresh[of v] show ?thesis by simp
  next
    case False
    show ?thesis
    proof (cases "v = t")
      case True
      with False t u fresh[of u] show ?thesis by (simp add: Int_commute)
    next
      case vf: False
      with False old u v show ?thesis by simp
    qed
  qed
qed

lemma user_table_replace_table:
  "user_table h q \<Longrightarrow> user_table (h\<lparr>tbls := (tbls h)[t := T]\<rparr>) q"
  by (simp add: user_table_def)

lemma assign_effect:
  assumes inv: "store_inv h" and ut: "user_table h t" and u: "u < length (tbls h)"
  shows "effect_ok h (CTable_assign h t u) t"
proof (cases "u = t")
  case True
  then have "CTable_assign h t u = h" by (simp add: CTable_assign_def)
  moreover have "only_touches h h t {}" by (simp add: only_touches_def)
  ultimately show ?thesis using inv unfolding effect_ok_def by auto
next
  case False
  from inv have ok: "heap_ok h" and gd: "grids_disjoint h" by (simp_all add: store_inv_def)
  from ut have t: "t < length (tbls h)" by (simp add: user_table_def)
  let ?U = "tbls h ! u"
  have invU: "CTable_inv ?U" by (rule heap_okD_inv[OF ok u])
  obtain h' g where g: "clone_grid h (Cells ?U) = (h', g)" by (cases "clone_grid h (Cells ?U)")
  have "\<forall>row\<in>set (Cells ?U). \<forall>a\<in>set row. a < length (objs h)"
    using heap_okD_cells[OF ok u] by (auto simp: cells_of_def)
  from clone_grid_rel[OF this g]
  have ext: "extends h h'" and rel: "list_all2 (list_all2 (is_clone h h')) g (Cells ?U)" by blast+
  define T where "T = \<lparr>Rows = Rows ?U, Cols = Cols ?U, Cells = g\<rparr>"
  have cp: "is_copy h h' T ?U" using rel by (simp add: is_copy_def T_def)
  have h2: "CTable_assign h t u = h'\<lparr>tbls := (tbls h')[t := T]\<rparr>"
    using False g by (simp add: CTable_assign_def Let_def grid_addrs_inv[OF invU] T_def)
  have T': "tbls h' = tbls h" by (rule extends_tbls[OF ext])
  have ok': "heap_ok h'" by (rule heap_ok_extends[OF ok ext])
  have ut': "user_table h' t" by (rule user_table_extends[OF ut ext])
  have ok2: "heap_ok (CTable_assign h t u)"
    unfolding h2
    by (rule heap_ok_replace_table[OF ok' ut' is_copy_inv[OF cp invU]])
       (use is_copy_cells[OF cp] in blast)
  have gd2: "grids_disjoint (CTable_assign h t u)"
    unfolding h2
  proof (rule grids_disjoint_replace_table[OF grids_disjoint_extends[OF gd ext]])
    show "t < length (tbls h')" using t by (simp add: T')
    fix w assume "w < length (tbls h')"
    then have w: "w < length (tbls h)" by (simp add: T')
    have "c < length (objs h)" if "c \<in> cells_of (tbls h' ! w)" for c
      using heap_okD_cells[OF ok w, of c] that by (simp add: T')
    moreover have "length (objs h) \<le> c" if "c \<in> cells_of T" for c
      using is_copy_cells[OF cp that] by simp
    ultimately show "cells_of T \<inter> cells_of (tbls h' ! w) = {}" by fastforce
  qed
  have ut2: "user_table (CTable_assign h t u) q" if "user_table h q" for q
    unfolding h2 by (rule user_table_replace_table[OF user_table_extends[OF that ext]])
  have "only_touches h (CTable_assign h t u) t {}"
    using extends_nth[OF ext] by (simp add: only_touches_def h2 T')
  moreover have "length (tbls h) \<le> length (tbls (CTable_assign h t u))" by (simp add: h2 T')
  ultimately show ?thesis using ok2 gd2 ut2 unfolding effect_ok_def store_inv_def by blast
qed

lemma setCell_table_effect_ok:
  assumes inv: "store_inv h" and ut: "user_table h t" and u: "u < length (tbls h)"
    and res: "setCell_table h t row col u = Inr h2"
  shows "effect_ok h h2 t"
proof -
  from inv have ok: "heap_ok h" and gd: "grids_disjoint h" by (simp_all add: store_inv_def)
  from ut have t: "t < length (tbls h)" by (simp add: user_table_def)
  obtain h1 a where ctor: "CTableCell_ctor h u = (h1, a)" by (cases "CTableCell_ctor h u")
  from CTableCell_ctor_spec[OF ok u ctor] obtain h' T0 where
    h1: "h1 = h'\<lparr>tbls := tbls h @ [T0], objs := objs h' @ [CTableCell (length (tbls h))]\<rparr>"
    by blast
  have "tbls h1 ! t = tbls h ! t" using t by (simp add: h1 nth_append)
  with res ctor have rng: "in_range (tbls h ! t) row col"
    by (simp add: setCell_table_def split: if_splits)
  from setCell_table_effect[OF ok ut u rng] obtain h2' where
    E: "setCell_table h t row col u = Inr h2'" "heap_ok h2'"
    "grids_disjoint h \<Longrightarrow> grids_disjoint h2'"
    "\<And>q. user_table h q \<Longrightarrow> user_table h2' q"
    "only_touches h h2' t {}"
    "length (tbls h2') = Suc (length (tbls h))"
    by metis
  from E(1) res have "h2' = h2" by simp
  with E gd show ?thesis unfolding effect_ok_def store_inv_def by auto
qed

lemma exec_effect:
  assumes "store_inv h" "valid_call h m" "exec h m = Inr h2"
  shows "effect_ok h h2 (receiver m)"
proof (cases m)
  case (SetCell t row col cell)
  with assms show ?thesis using setCell_effect[of h t cell row col h2] by simp
next
  case (SetCellTable t row col table)
  with assms show ?thesis using setCell_table_effect_ok[of h t table row col h2] by simp
next
  case (Assign t other)
  with assms show ?thesis using assign_effect[of h t other] by auto
next
  case (SetText t row col str)
  with assms show ?thesis using setText_effect[of h t row col str h2] by simp
next
  case (AddRow t row col r)
  with assms show ?thesis using addRow_effect[of h t row col r h2] by simp
qed

section \<open>The lines of a text block\<close>

lemma split_on_nonempty: "split_on sep s \<noteq> []"
  by (induction s) simp_all

lemma length_split_on: "length (split_on sep s) = Suc (count_list s sep)"
  using split_on_nonempty[of sep] by (induction s) (simp_all add: Suc_pred' length_greater_0_conv)

lemma last_split_on: "last (split_on sep s) = [] \<longleftrightarrow> s = [] \<or> last s = sep"
proof (induction s)
  case Nil
  show ?case by simp
next
  case (Cons c cs)
  note ne = split_on_nonempty[of sep cs]
  show ?case
  proof (cases "cs = []")
    case True
    then show ?thesis by simp
  next
    case False
    have tl_ne: "tl (split_on sep cs) \<noteq> [] \<Longrightarrow> last (tl (split_on sep cs)) = last (split_on sep cs)"
      using ne by (cases "split_on sep cs") simp_all
    show ?thesis
    proof (cases "tl (split_on sep cs) = []")
      case True
      then have one: "split_on sep cs = [hd (split_on sep cs)]" using ne by (cases "split_on sep cs") simp_all
      then have "count_list cs sep = 0" using length_split_on[of sep cs] by (metis One_nat_def Suc_inject length_Cons list.size(3))
      then have "last cs \<noteq> sep" using False by (metis count_list_0_iff last_in_set)
      moreover have "last (split_on sep cs) = hd (split_on sep cs)" using one by (metis last.simps)
      ultimately show ?thesis using Cons False True ne by (auto split: if_splits)
    next
      case nt: False
      with Cons False ne tl_ne show ?thesis by (auto split: if_splits)
    qed
  qed
qed

lemma getline_loop_split:
  "getline_loop cur s =
     (let pieces = (cur @ hd (split_on newline s)) # tl (split_on newline s)
      in if last pieces = [] then butlast pieces else pieces)"
proof (induction s arbitrary: cur)
  case Nil
  show ?case by simp
next
  case (Cons c cs)
  note ne = split_on_nonempty[of newline cs]
  show ?case
  proof (cases "c = newline")
    case True
    have "getline_loop cur (c # cs) = cur # getline_loop [] cs" using True by simp
    also have "getline_loop [] cs
        = (if last (split_on newline cs) = [] then butlast (split_on newline cs) else split_on newline cs)"
      using Cons[of "[]"] ne by (simp add: Let_def)
    finally show ?thesis using True ne by (simp add: Let_def)
  next
    case False
    then have "getline_loop cur (c # cs) = getline_loop (cur @ [c]) cs" by simp
    with Cons[of "cur @ [c]"] False show ?thesis by (simp add: Let_def)
  qed
qed

lemma getlines_text_lines: "getlines s = text_lines s"
  using split_on_nonempty[of newline s]
  by (simp add: getlines_def text_lines_def getline_loop_split Let_def)

lemma CTableCell_Height_text_lines: "CTableCell_Height s = length (text_lines s)"
proof -
  have "length (text_lines s)
      = (if last (split_on newline s) = [] then count_list s newline else Suc (count_list s newline))"
    by (simp add: text_lines_def Let_def length_split_on)
  then show ?thesis
    using last_split_on[of newline s] by (auto simp: CTableCell_Height_def)
qed

lemma CTableCell_Width_text_lines:
  "CTableCell_Width s = Max (insert 0 (length ` set (text_lines s)))"
  by (simp add: CTableCell_Width_def getlines_text_lines foldl_max_Max)

section \<open>Allocation leaves the existing tables alone\<close>

lemma clone_cells_tbls: "tbls (fst (clone_cells h as)) = tbls h"
proof (induction as arbitrary: h)
  case Nil
  show ?case by simp
next
  case (Cons a as)
  let ?h1 = "h\<lparr>objs := objs h @ [objs h ! a]\<rparr>"
  obtain h2 as2 where r: "clone_cells ?h1 as = (h2, as2)" by (cases "clone_cells ?h1 as")
  have "tbls h2 = tbls ?h1" using Cons[of ?h1] r by simp
  with r show ?case by (simp add: Clone_def new_obj_def)
qed

lemma clone_grid_tbls: "tbls (fst (clone_grid h g)) = tbls h"
proof (induction g arbitrary: h)
  case Nil
  show ?case by simp
next
  case (Cons row rows)
  obtain h1 row1 where c: "clone_cells h row = (h1, row1)" by (cases "clone_cells h row")
  obtain h2 rows2 where r: "clone_grid h1 rows = (h2, rows2)" by (cases "clone_grid h1 rows")
  have "tbls h1 = tbls h" using clone_cells_tbls[of h row] c by simp
  moreover have "tbls h2 = tbls h1" using Cons[of h1] r by simp
  ultimately show ?case using c r by simp
qed

lemma empty_cells_tbls: "tbls (fst (empty_cells h n)) = tbls h"
proof (induction n arbitrary: h)
  case 0
  show ?case by simp
next
  case (Suc n)
  let ?h1 = "h\<lparr>objs := objs h @ [CEmpty]\<rparr>"
  obtain h2 as2 where r: "empty_cells ?h1 n = (h2, as2)" by (cases "empty_cells ?h1 n")
  have "tbls h2 = tbls ?h1" using Suc[of ?h1] r by simp
  with r show ?case by (simp add: new_obj_def)
qed

lemma empty_grid_tbls: "tbls (fst (empty_grid h n cols)) = tbls h"
proof (induction n arbitrary: h)
  case 0
  show ?case by simp
next
  case (Suc n)
  obtain h1 row where c: "empty_cells h cols = (h1, row)" by (cases "empty_cells h cols")
  obtain h2 rows where r: "empty_grid h1 n cols = (h2, rows)" by (cases "empty_grid h1 n cols")
  have "tbls h1 = tbls h" using empty_cells_tbls[of h cols] c by simp
  moreover have "tbls h2 = tbls h1" using Suc[of h1] r by simp
  ultimately show ?case using c r by simp
qed

lemma CTableCell_ctor_tbls:
  "\<exists>T0. tbls (fst (CTableCell_ctor h u)) = tbls h @ [T0]"
proof -
  obtain h1 g where g: "clone_grid h (grid_addrs (tbls h ! u)) = (h1, g)"
    by (cases "clone_grid h (grid_addrs (tbls h ! u))")
  have "tbls h1 = tbls h" using clone_grid_tbls[of h "grid_addrs (tbls h ! u)"] g by simp
  with g show ?thesis
    by (simp add: CTableCell_ctor_def CTable_copy_def Let_def new_table_def new_obj_def)
qed

lemma CTable_ctor_dims:
  assumes "CTable_ctor h rows cols = (h0, t)"
  shows "t < length (tbls h0) \<and> Rows (tbls h0 ! t) = rows \<and> Cols (tbls h0 ! t) = cols"
proof -
  obtain h1 g where g: "empty_grid h rows cols = (h1, g)" by (cases "empty_grid h rows cols")
  have "tbls h1 = tbls h" using empty_grid_tbls[of h rows cols] g by simp
  with assms g show ?thesis by (auto simp: CTable_ctor_def new_table_def)
qed

lemma in_range_inv:
  "CTable_inv T \<Longrightarrow> in_range T row col \<longleftrightarrow> row < Rows T \<and> col < Cols T"
  by (auto simp: CTable_inv_def in_range_def)

lemma store_cell_dims:
  assumes "t < length (tbls h)"
  shows "Rows (tbls (store_cell h u row col a) ! t) = Rows (tbls h ! t)
         \<and> Cols (tbls (store_cell h u row col a) ! t) = Cols (tbls h ! t)
         \<and> length (tbls (store_cell h u row col a)) = length (tbls h)"
  using assms by (cases "t = u") (simp_all add: store_cell_put)

lemma exec_dims:
  assumes t: "t < length (tbls h)" and ex: "exec h m = Inr h'"
    and na: "\<forall>other. m \<noteq> Assign t other"
  shows "t < length (tbls h') \<and> Rows (tbls h' ! t) = Rows (tbls h ! t)
         \<and> Cols (tbls h' ! t) = Cols (tbls h ! t)"
proof (cases m)
  case (SetCell u row col cell)
  with ex have "h' = store_cell (h\<lparr>objs := objs h @ [objs h ! cell]\<rparr>) u row col (length (objs h))"
    by (simp add: setCell_def Clone_def new_obj_def split: if_splits)
  with store_cell_dims[of t "h\<lparr>objs := objs h @ [objs h ! cell]\<rparr>" u row col "length (objs h)"] t
  show ?thesis by simp
next
  case (SetCellTable u row col table)
  obtain h1 a where c: "CTableCell_ctor h table = (h1, a)" by (cases "CTableCell_ctor h table")
  from CTableCell_ctor_tbls[of h table] c obtain T0 where T0: "tbls h1 = tbls h @ [T0]" by auto
  from ex SetCellTable c have h': "h' = store_cell h1 u row col a"
    by (simp add: setCell_table_def split: if_splits)
  have t1: "t < length (tbls h1)" and same: "tbls h1 ! t = tbls h ! t"
    using t by (simp_all add: T0 nth_append)
  from store_cell_dims[OF t1, of u row col a] same t1 show ?thesis by (simp add: h')
next
  case (Assign u other)
  with na have ne: "u \<noteq> t" by auto
  show ?thesis
  proof (cases "other = u")
    case True
    with ex Assign t show ?thesis by (simp add: CTable_assign_def)
  next
    case False
    obtain h1 g where g: "clone_grid h (grid_addrs (tbls h ! other)) = (h1, g)"
      by (cases "clone_grid h (grid_addrs (tbls h ! other))")
    have "tbls h1 = tbls h" using clone_grid_tbls[of h "grid_addrs (tbls h ! other)"] g by simp
    with ex Assign False g ne t show ?thesis by (auto simp: CTable_assign_def Let_def)
  qed
next
  case (SetText u row col str)
  with ex obtain a where "setText_at h a str = Inr h'" by (auto split: sum.splits)
  then have "tbls h' = tbls h" by (auto simp: setText_at_def split: CBase.splits)
  with t show ?thesis by simp
next
  case (AddRow u row col r)
  with ex obtain a where "addRow_at h a r = Inr h'" by (auto split: sum.splits)
  then have "tbls h' = tbls h" by (auto simp: addRow_at_def split: CBase.splits)
  with t show ?thesis by simp
qed

lemma run_dims:
  assumes "t < length (tbls h)" "run h ms = Inr h'"
    and "\<forall>m\<in>set ms. \<forall>other. m \<noteq> Assign t other"
  shows "t < length (tbls h') \<and> Rows (tbls h' ! t) = Rows (tbls h ! t)
         \<and> Cols (tbls h' ! t) = Cols (tbls h ! t)"
  using assms
proof (induction ms arbitrary: h)
  case Nil
  then show ?case by simp
next
  case (Cons m ms)
  from Cons.prems(2) obtain h1 where ex: "exec h m = Inr h1" and rest: "run h1 ms = Inr h'"
    by (auto split: sum.splits)
  from Cons.prems(3) have na: "\<forall>other. m \<noteq> Assign t other"
    and nas: "\<forall>m\<in>set ms. \<forall>other. m \<noteq> Assign t other" by simp_all
  from exec_dims[OF Cons.prems(1) ex na]
  have 1: "t < length (tbls h1)" "Rows (tbls h1 ! t) = Rows (tbls h ! t)"
    "Cols (tbls h1 ! t) = Cols (tbls h ! t)" by simp_all
  from Cons.IH[OF 1(1) rest nas] 1(2,3) show ?case by simp
qed

section \<open>Lines without newlines\<close>

lemma nl_free_simps [simp]:
  "nl_free []" "nl_free (replicate n space)" "nl_free (replicate n CHR ''-'')"
  "nl_free (xs @ ys) \<longleftrightarrow> nl_free xs \<and> nl_free ys"
  "nl_free (c # cs) \<longleftrightarrow> c \<noteq> newline \<and> nl_free cs"
  by (auto simp: nl_free_def)

lemma nl_free_take: "nl_free s \<Longrightarrow> nl_free (take n s)"
  unfolding nl_free_def using set_take_subset[of n s] by blast

lemma nl_free_drop: "nl_free s \<Longrightarrow> nl_free (drop n s)"
  unfolding nl_free_def using set_drop_subset[of n s] by blast

lemma split_on_nl_free: "l \<in> set (split_on newline s) \<Longrightarrow> nl_free l"
proof (induction s arbitrary: l)
  case Nil
  then show ?case by simp
next
  case (Cons c cs)
  note ne = split_on_nonempty[of newline cs]
  show ?case
  proof (cases "c = newline")
    case True
    with Cons show ?thesis by auto
  next
    case False
    from ne have hd_in: "hd (split_on newline cs) \<in> set (split_on newline cs)" by simp
    from Cons.prems False
    have "l = c # hd (split_on newline cs) \<or> l \<in> set (tl (split_on newline cs))" by simp
    then show ?thesis
    proof
      assume "l = c # hd (split_on newline cs)"
      with False Cons.IH[OF hd_in] show ?thesis by simp
    next
      assume "l \<in> set (tl (split_on newline cs))"
      then have "l \<in> set (split_on newline cs)" using ne by (metis list.set_sel(2))
      then show ?thesis by (rule Cons.IH)
    qed
  qed
qed

lemma text_lines_nl_free: "l \<in> set (text_lines s) \<Longrightarrow> nl_free l"
proof -
  assume "l \<in> set (text_lines s)"
  then have "l \<in> set (split_on newline s)"
    by (auto simp: text_lines_def Let_def split: if_splits dest: in_set_butlastD)
  then show ?thesis by (rule split_on_nl_free)
qed

lemma split_on_line: "nl_free l \<Longrightarrow> split_on newline (l @ newline # rest) = l # split_on newline rest"
  by (induction l) simp_all

lemma split_on_terminated:
  "list_all nl_free ls \<Longrightarrow> split_on newline (terminated ls) = ls @ [[]]"
proof (induction ls)
  case Nil
  show ?case by (simp add: terminated_def)
next
  case (Cons l ls)
  have "terminated (l # ls) = l @ newline # terminated ls" by (simp add: terminated_def)
  with Cons show ?case by (simp add: split_on_line)
qed

lemma text_lines_terminated: "list_all nl_free ls \<Longrightarrow> text_lines (terminated ls) = ls"
  by (simp add: text_lines_def split_on_terminated)

lemma CText_line_nl_free:
  assumes "CText_line lines format width i = Inr l" "list_all nl_free lines"
  shows "nl_free l"
proof -
  have "nl_free (if i < length lines then lines ! i else [])"
    using assms(2) by (simp add: list_all_length)
  with assms(1) show ?thesis by (auto simp: CText_line_def Let_def split: if_splits)
qed

lemma CText_Output_nl_free:
  assumes "CText_Output lines format height width = Inr ls" "list_all nl_free lines"
  shows "list_all nl_free ls"
  unfolding list_all_length
proof (intro allI impI)
  fix i assume i: "i < length ls"
  have len: "length ls = height"
    using assms(1) mapF_length[of _ "[0..<height]" ls] by (simp add: CText_Output_def)
  with assms(1) i have "CText_line lines format width i = Inr (ls ! i)"
    using mapF_nth[of "CText_line lines format width" "[0..<height]" ls i]
    by (simp add: CText_Output_def)
  then show "nl_free (ls ! i)" using assms(2) by (rule CText_line_nl_free)
qed

lemma CImage_put_nl_free:
  "nl_free canvasLine \<Longrightarrow> nl_free imgLine \<Longrightarrow> nl_free (CImage_put canvasLine offsetX width imgLine)"
  by (simp add: CImage_put_def string_replace_def nl_free_take nl_free_drop)

lemma list_all_update: "list_all P xs \<Longrightarrow> P x \<Longrightarrow> list_all P (xs[i := x])"
  by (induction xs arbitrary: i) (auto split: nat.splits)

lemma CImage_loop_nl_free:
  assumes "list_all nl_free rows" "list_all nl_free out"
  shows "list_all nl_free (CImage_loop rows offsetY offsetX height width i out)"
  using assms
proof (induction rows offsetY offsetX height width i out rule: CImage_loop.induct)
  case (1 rows offsetY offsetX height width i out)
  show ?case
  proof (cases "i < length rows \<and> i + offsetY < height")
    case True
    define out' where
      "out' = out[i + offsetY := CImage_put (out ! (i + offsetY)) offsetX width (rows ! i)]"
    have eq: "CImage_loop rows offsetY offsetX height width i out
                = CImage_loop rows offsetY offsetX height width (Suc i) out'"
      using True by (subst CImage_loop.simps) (simp add: out'_def)
    have row: "nl_free (rows ! i)" using "1.prems"(1) True by (simp add: list_all_length)
    have "list_all nl_free out'"
    proof (cases "i + offsetY < length out")
      case inside: True
      then have "nl_free (out ! (i + offsetY))" using "1.prems"(2) by (simp add: list_all_length)
      from list_all_update[OF "1.prems"(2) CImage_put_nl_free[OF this row]]
      show ?thesis by (simp add: out'_def)
    next
      case False
      then show ?thesis using "1.prems"(2) by (simp add: out'_def list_update_beyond)
    qed
    from "1.IH"[OF True "1.prems"(1), folded out'_def, OF this] show ?thesis by (simp only: eq)
  next
    case False
    then have "CImage_loop rows offsetY offsetX height width i out = out"
      by (subst CImage_loop.simps) auto
    with "1.prems"(2) show ?thesis by (simp only:)
  qed
qed

lemma CImage_Output_nl_free:
  assumes "list_all nl_free rows"
  shows "list_all nl_free (CImage_Output rows height width)"
proof -
  have out: "list_all nl_free (replicate height (replicate width space))"
    by (simp add: list_all_length)
  show ?thesis
    unfolding CImage_Output_def Let_def
    using out CImage_loop_nl_free[OF assms out] by (simp split: if_splits)
qed

lemma CTableCell_fill_nl_free:
  assumes "list_all nl_free lines" "list_all nl_free result"
  shows "list_all nl_free (CTableCell_fill lines height width result)"
  using assms
proof (induction lines arbitrary: result)
  case Nil
  then show ?case by simp
next
  case (Cons line rest)
  from Cons.prems(1) have line: "nl_free line" and rest: "list_all nl_free rest" by simp_all
  have "list_all nl_free (result @ [if length line > width then take width line
                        else line @ replicate (width - length line) space])"
    using Cons.prems(2) line by (simp add: nl_free_take)
  from Cons.IH[OF rest this] Cons.prems(2) show ?case by simp
qed

lemma CTableCell_Output_nl_free: "list_all nl_free (CTableCell_Output s height width)"
proof -
  have "list_all nl_free (getlines s)"
    unfolding getlines_text_lines list_all_iff using text_lines_nl_free by blast
  from CTableCell_fill_nl_free[OF this, of "[]" height width]
  have "list_all nl_free (CTableCell_fill (getlines s) height width [])" by simp
  moreover have "list_all nl_free (replicate k (replicate width space))" for k
    by (simp add: list_all_iff)
  ultimately show ?thesis by (simp add: CTableCell_Output_def Let_def)
qed

lemma Output_nl_free:
  assumes "Output n h a height width = Inr ls" "cell_nl_free (objs h ! a)"
  shows "list_all nl_free ls"
proof (cases n)
  case 0
  with assms show ?thesis by simp
next
  case (Suc m)
  show ?thesis
  proof (cases "objs h ! a")
    case CEmpty
    with assms Suc show ?thesis by (auto simp: CEmpty_Output_def list_all_length)
  next
    case (CText lines format)
    with assms Suc show ?thesis
      using CText_Output_nl_free[of lines format height width ls] by (simp add: cell_nl_free_def)
  next
    case (CImage rows)
    with assms Suc show ?thesis
      using CImage_Output_nl_free[of rows height width] by (auto simp: cell_nl_free_def)
  next
    case (CTableCell p)
    with assms Suc show ?thesis
      using CTableCell_Output_nl_free by (auto split: sum.splits)
  qed
qed

section \<open>The length of a rendered line\<close>

lemma length_concat_upt: "length (concat (map f [0..<n])) = (\<Sum>c<n. length (f c))"
  by (induction n) simp_all

lemma length_spec_border: "length (spec_border C cw) = 1 + (\<Sum>c<C. cw c + 1)"
  by (simp add: spec_border_def length_concat_upt)

lemma length_spec_content_line:
  assumes "\<And>c. c < C \<Longrightarrow> length (piece c) = cw c"
  shows "length (spec_content_line C piece) = 1 + (\<Sum>c<C. cw c + 1)"
  using assms by (simp add: spec_content_line_def length_concat_upt)

lemma nl_free_spec_border: "nl_free (spec_border C cw)"
proof -
  have "nl_free (concat (map f [0..<n]))" if "\<And>c. c < n \<Longrightarrow> nl_free (f c)" for f n
    using that by (induction n) simp_all
  then show ?thesis by (simp add: spec_border_def)
qed

lemma nl_free_spec_content_line:
  assumes "\<And>c. c < C \<Longrightarrow> nl_free (piece c)"
  shows "nl_free (spec_content_line C piece)"
proof -
  have "nl_free (concat (map f [0..<n]))" if "\<And>c. c < n \<Longrightarrow> nl_free (f c)" for f n
    using that by (induction n) simp_all
  then show ?thesis using assms by (simp add: spec_content_line_def)
qed

lemma spec_lines_cases:
  assumes "l \<in> set (spec_lines R C cw rh out)"
  shows "l = spec_border C cw
         \<or> (\<exists>r<R. \<exists>v<rh r. l = spec_content_line C (\<lambda>c. out r c ! v))"
proof -
  from assms have "l = spec_border C cw
      \<or> l \<in> set (concat (map (\<lambda>r. map (\<lambda>v. spec_content_line C (\<lambda>c. out r c ! v)) [0..<rh r]
                       @ [spec_border C cw]) [0..<R]))"
    unfolding spec_lines_def by simp
  then have "l = spec_border C cw
      \<or> (\<exists>r\<in>set [0..<R]. l \<in> set (map (\<lambda>v. spec_content_line C (\<lambda>c. out r c ! v)) [0..<rh r]
                       @ [spec_border C cw]))"
    unfolding set_concat by (simp only: set_map) blast
  then consider "l = spec_border C cw"
    | r where "r < R" "l \<in> set (map (\<lambda>v. spec_content_line C (\<lambda>c. out r c ! v)) [0..<rh r]
                       @ [spec_border C cw])"
    by auto
  then show ?thesis
  proof cases
    case 1
    then show ?thesis by simp
  next
    case 2
    from 2(2) have "l = spec_border C cw
        \<or> (\<exists>v<rh r. l = spec_content_line C (\<lambda>c. out r c ! v))" by auto
    then show ?thesis
    proof
      assume "l = spec_border C cw"
      then show ?thesis by simp
    next
      assume "\<exists>v<rh r. l = spec_content_line C (\<lambda>c. out r c ! v)"
      then obtain v where "v < rh r" "l = spec_content_line C (\<lambda>c. out r c ! v)" by blast
      with 2(1) have "\<exists>r<R. \<exists>v<rh r. l = spec_content_line C (\<lambda>c. out r c ! v)"
        by (intro exI[of _ r] conjI exI[of _ v])
      then show ?thesis by (rule disjI2)
    qed
  qed
qed

text \<open>
  C1 (as amended). For a table with at least one row and one column in a well-formed
  store, whose own text and image cells hold no newline character in a stored line or
  row, and fuel for the deepest nesting, \<^verbatim>\<open>operator<<\<close> returns a text \<open>s\<close>. With
  \<open>colWidth c\<close> the maximum natural width over the cells of column \<open>c\<close> and \<open>rowHeight r\<close>
  the maximum natural height over the cells of row \<open>r\<close>, the lines of \<open>s\<close> are a border
  line, then for each row in order its \<open>rowHeight r\<close> content lines and a border line
  again, and every line of \<open>s\<close> is terminated by a newline. A border line is \<^verbatim>\<open>+\<close> and,
  for each column, \<open>colWidth c\<close> dashes and \<^verbatim>\<open>+\<close>. The \<open>v\<close>-th content line of row \<open>r\<close> is
  \<^verbatim>\<open>|\<close> and, for each column, line \<open>v\<close> of the cell's \<^verbatim>\<open>Output(rowHeight r, colWidth c)\<close>,
  which has exactly \<open>colWidth c\<close> characters, none of them a newline, and \<^verbatim>\<open>|\<close>.
\<close>

theorem render_shape:
  fixes h :: heap and t :: addr
  defines "T \<equiv> tbls h ! t"
  assumes ok: "heap_ok h" and t: "t < length (tbls h)" and fuel: "2 * length (objs h) \<le> n"
    and rows: "1 \<le> Rows T" and cols: "1 \<le> Cols T"
    and clean: "\<forall>r<Rows T. \<forall>c<Cols T. cell_nl_free (objs h ! (Cells T ! r ! c))"
  shows "\<exists>W H colWidth rowHeight out s.
           (\<forall>r<Rows T. \<forall>c<Cols T.
               Width n h (Cells T ! r ! c) = Inr (W r c)
             \<and> Height n h (Cells T ! r ! c) = Inr (H r c)
             \<and> Output n h (Cells T ! r ! c) (rowHeight r) (colWidth c) = Inr (out r c)
             \<and> length (out r c) = rowHeight r
             \<and> (\<forall>v<rowHeight r. length (out r c ! v) = colWidth c \<and> nl_free (out r c ! v)))
         \<and> (\<forall>c<Cols T. colWidth c = Max ((\<lambda>r. W r c) ` {..<Rows T}))
         \<and> (\<forall>r<Rows T. rowHeight r = Max ((\<lambda>c. H r c) ` {..<Cols T}))
         \<and> render (Suc n) h t = Inr s
         \<and> text_lines s = spec_lines (Rows T) (Cols T) colWidth rowHeight out
         \<and> s = terminated (text_lines s)"
proof -
  define W where "W = (\<lambda>r c. projr (Width n h (Cells T ! r ! c)))"
  define H where "H = (\<lambda>r c. projr (Height n h (Cells T ! r ! c)))"
  define cw where "cw = (\<lambda>c. foldl (\<lambda>m r. max m (W r c)) 0 [0..<Rows T])"
  define rh where "rh = (\<lambda>r. foldl (\<lambda>m c. max m (H r c)) 0 [0..<Cols T])"
  define out where "out = (\<lambda>r c. projr (Output n h (Cells T ! r ! c) (rh r) (cw c)))"
  define L where "L = spec_lines (Rows T) (Cols T) cw rh out"
  have cells: "cell_succeeds (Width n h) (Height n h) (Output n h) (Cells T ! r ! c)"
    if "r < Rows T" "c < Cols T" for r c
    unfolding T_def by (rule table_cells_succeed[OF ok t fuel]) (use that in \<open>simp_all add: T_def\<close>)
  have L1: "layout T (Width n h) (Height n h) (Output n h) = Inr (terminated L)"
    unfolding W_def H_def cw_def rh_def out_def L_def by (rule layout_success(1)) (rule cells)
  have L2: "Width n h (Cells T ! r ! c) = Inr (W r c)" if "r < Rows T" "c < Cols T" for r c
    unfolding W_def by (rule layout_success(2)[OF _ that]) (rule cells)
  have L3: "Height n h (Cells T ! r ! c) = Inr (H r c)" if "r < Rows T" "c < Cols T" for r c
    unfolding H_def by (rule layout_success(3)[OF _ that]) (rule cells)
  have L4: "Output n h (Cells T ! r ! c) (rh r) (cw c) = Inr (out r c)"
    if "r < Rows T" "c < Cols T" for r c
    unfolding W_def H_def cw_def rh_def out_def
    by (rule layout_success(4)[OF _ that]) (rule cells)
  have len: "length (out r c) = rh r" if rc: "r < Rows T" "c < Cols T" for r c
    using Output_shape[OF L4[OF rc]] by blast
  have piece: "length (out r c ! v) = cw c \<and> nl_free (out r c ! v)"
    if rc: "r < Rows T" "c < Cols T" and v: "v < rh r" for r c v
  proof -
    from Output_shape[OF L4[OF rc]]
    have all: "\<forall>l\<in>set (out r c). length l = cw c" by blast
    from clean rc have "cell_nl_free (objs h ! (Cells T ! r ! c))" by blast
    from Output_nl_free[OF L4[OF rc] this] have "list_all nl_free (out r c)" .
    then have "nl_free (out r c ! v)" using v len[OF rc] by (simp add: list_all_length)
    moreover have "length (out r c ! v) = cw c" using all len[OF rc] v nth_mem by metis
    ultimately show ?thesis by blast
  qed
  have line: "nl_free l" if "l \<in> set L" for l
  proof -
    from spec_lines_cases[OF that[unfolded L_def]]
    show ?thesis
    proof
      assume "l = spec_border (Cols T) cw"
      then show ?thesis by (simp add: nl_free_spec_border)
    next
      assume "\<exists>r<Rows T. \<exists>v<rh r. l = spec_content_line (Cols T) (\<lambda>c. out r c ! v)"
      then obtain r v where r: "r < Rows T" and v: "v < rh r"
        and l: "l = spec_content_line (Cols T) (\<lambda>c. out r c ! v)" by blast
      show "nl_free l"
        unfolding l by (rule nl_free_spec_content_line) (use piece[OF r _ v] in blast)
    qed
  qed
  have "list_all nl_free L" unfolding list_all_iff using line by blast
  then have tl: "text_lines (terminated L) = L" by (rule text_lines_terminated)
  have cwmax: "cw c = Max ((\<lambda>r. W r c) ` {..<Rows T})" for c
    unfolding cw_def using rows by (intro foldl_max_upt) simp
  have rhmax: "rh r = Max ((\<lambda>c. H r c) ` {..<Cols T})" for r
    unfolding rh_def using cols by (intro foldl_max_upt) simp
  have r: "render (Suc n) h t = Inr (terminated L)"
    unfolding render_Suc using L1 by (simp add: T_def)
  show ?thesis
  proof (rule exI[of _ W], rule exI[of _ H], rule exI[of _ cw], rule exI[of _ rh],
      rule exI[of _ out], rule exI[of _ "terminated L"], intro conjI allI impI)
    show "render (Suc n) h t = Inr (terminated L)" by (rule r)
    show "text_lines (terminated L) = spec_lines (Rows T) (Cols T) cw rh out"
      using tl unfolding L_def .
    show "terminated L = terminated (text_lines (terminated L))" unfolding tl by (rule refl)
    show "cw c = Max ((\<lambda>r. W r c) ` {..<Rows T})" for c by (rule cwmax)
    show "rh r = Max ((\<lambda>c. H r c) ` {..<Cols T})" for r by (rule rhmax)
  next
    fix r c assume rc: "r < Rows T" "c < Cols T"
    show "Width n h (Cells T ! r ! c) = Inr (W r c)" by (rule L2[OF rc])
    show "Height n h (Cells T ! r ! c) = Inr (H r c)" by (rule L3[OF rc])
    show "Output n h (Cells T ! r ! c) (rh r) (cw c) = Inr (out r c)" by (rule L4[OF rc])
    show "length (out r c) = rh r" by (rule len[OF rc])
    fix v assume v: "v < rh r"
    show "length (out r c ! v) = cw c" using piece[OF rc v] by blast
    show "nl_free (out r c ! v)" using piece[OF rc v] by blast
  qed
qed

text \<open>
  The theorem at a 1\<times>1 table holding the text \<^verbatim>\<open>Hi\<close>, whose rendering is
  \<^verbatim>\<open>"+--+\n|Hi|\n+--+\n"\<close>.
\<close>

theorem render_shape_witness:
  "heap_ok \<lparr>objs = [CText [''Hi''] ALIGN_LEFT], tbls = [\<lparr>Rows = 1, Cols = 1, Cells = [[0]]\<rparr>]\<rparr>
   \<and> cell_nl_free (CText [''Hi''] ALIGN_LEFT)
   \<and> render 3 \<lparr>objs = [CText [''Hi''] ALIGN_LEFT], tbls = [\<lparr>Rows = 1, Cols = 1, Cells = [[0]]\<rparr>]\<rparr> 0
       = Inr (terminated [''+--+'', ''|Hi|'', ''+--+''])
   \<and> (\<exists>W H colWidth rowHeight out s.
         Width 2 \<lparr>objs = [CText [''Hi''] ALIGN_LEFT], tbls = [\<lparr>Rows = 1, Cols = 1, Cells = [[0]]\<rparr>]\<rparr> 0 = Inr (W 0 0)
       \<and> Height 2 \<lparr>objs = [CText [''Hi''] ALIGN_LEFT], tbls = [\<lparr>Rows = 1, Cols = 1, Cells = [[0]]\<rparr>]\<rparr> 0 = Inr (H 0 0)
       \<and> colWidth 0 = Max {W 0 0} \<and> rowHeight 0 = Max {H 0 0}
       \<and> length (out 0 0) = rowHeight 0
       \<and> render 3 \<lparr>objs = [CText [''Hi''] ALIGN_LEFT], tbls = [\<lparr>Rows = 1, Cols = 1, Cells = [[0]]\<rparr>]\<rparr> 0
           = Inr s
       \<and> text_lines s = spec_lines 1 1 colWidth rowHeight out
       \<and> s = terminated (text_lines s))"
proof -
  define h where "h = \<lparr>objs = [CText [''Hi''] ALIGN_LEFT], tbls = [\<lparr>Rows = 1, Cols = 1, Cells = [[0]]\<rparr>]\<rparr>"
  have ok: "heap_ok h"
    by (simp add: h_def heap_ok_def CTable_inv_def cells_of_def points_to_def)
  have cl: "cell_nl_free (CText [''Hi''] ALIGN_LEFT)"
    by (simp add: cell_nl_free_def nl_free_def)
  have r: "render 3 h 0 = Inr (terminated [''+--+'', ''|Hi|'', ''+--+''])"
    by (simp add: h_def numeral_3_eq_3 Let_def maxColWidths_def maxRowHeights_def
        printBorder_def printRow_def printLine_def CText_Output_def CText_line_def
        CText_Width_def CText_Height_def terminated_def)
  have clean: "\<forall>r<Rows (tbls h ! 0). \<forall>c<Cols (tbls h ! 0).
      cell_nl_free (objs h ! (Cells (tbls h ! 0) ! r ! c))"
    using cl by (simp add: h_def)
  have t: "0 < length (tbls h)" and fuel: "2 * length (objs h) \<le> 2"
    and rows: "1 \<le> Rows (tbls h ! 0)" and cols: "1 \<le> Cols (tbls h ! 0)"
    by (simp_all add: h_def)
  from render_shape[OF ok t fuel rows cols clean]
  obtain W H colWidth rowHeight out s where
    "\<forall>r<Rows (tbls h ! 0). \<forall>c<Cols (tbls h ! 0).
        Width 2 h (Cells (tbls h ! 0) ! r ! c) = Inr (W r c)
      \<and> Height 2 h (Cells (tbls h ! 0) ! r ! c) = Inr (H r c)
      \<and> Output 2 h (Cells (tbls h ! 0) ! r ! c) (rowHeight r) (colWidth c) = Inr (out r c)
      \<and> length (out r c) = rowHeight r
      \<and> (\<forall>v<rowHeight r. length (out r c ! v) = colWidth c \<and> nl_free (out r c ! v))"
    "\<forall>c<Cols (tbls h ! 0). colWidth c = Max ((\<lambda>r. W r c) ` {..<Rows (tbls h ! 0)})"
    "\<forall>r<Rows (tbls h ! 0). rowHeight r = Max ((\<lambda>c. H r c) ` {..<Cols (tbls h ! 0)})"
    "render (Suc 2) h 0 = Inr s"
    "text_lines s = spec_lines (Rows (tbls h ! 0)) (Cols (tbls h ! 0)) colWidth rowHeight out"
    "s = terminated (text_lines s)"
    by blast
  then have inst: "Width 2 h 0 = Inr (W 0 0) \<and> Height 2 h 0 = Inr (H 0 0)
       \<and> colWidth 0 = Max {W 0 0} \<and> rowHeight 0 = Max {H 0 0}
       \<and> length (out 0 0) = rowHeight 0
       \<and> render 3 h 0 = Inr s
       \<and> text_lines s = spec_lines 1 1 colWidth rowHeight out
       \<and> s = terminated (text_lines s)"
    by (simp add: h_def lessThan_Suc numeral_3_eq_3 eval_nat_numeral)
  have "\<exists>W H colWidth rowHeight out s. Width 2 h 0 = Inr (W 0 0) \<and> Height 2 h 0 = Inr (H 0 0)
       \<and> colWidth 0 = Max {W 0 0} \<and> rowHeight 0 = Max {H 0 0}
       \<and> length (out 0 0) = rowHeight 0
       \<and> render 3 h 0 = Inr s
       \<and> text_lines s = spec_lines 1 1 colWidth rowHeight out
       \<and> s = terminated (text_lines s)"
  proof (intro exI)
    show "Width 2 h 0 = Inr (W 0 0) \<and> Height 2 h 0 = Inr (H 0 0)
       \<and> colWidth 0 = Max {W 0 0} \<and> rowHeight 0 = Max {H 0 0}
       \<and> length (out 0 0) = rowHeight 0
       \<and> render 3 h 0 = Inr s
       \<and> text_lines s = spec_lines 1 1 colWidth rowHeight out
       \<and> s = terminated (text_lines s)"
      by (rule inst)
  qed
  with ok cl r show ?thesis unfolding h_def by blast
qed

text \<open>
  C1 as stated fails: an image row may hold a newline. The 1\<times>1 table around the image
  with the single row \<^verbatim>\<open>"a\nb"\<close> has column width 3 and row height 1, and the one string
  of the cell's block holds the newline. The rendered text has two lines between its
  borders where the row height is 1, of 2 characters each where a content line has
  \<open>1 + 3 + 1\<close>; its lines are not the border and content lines of the layout.
\<close>

theorem render_shape_counterexample:
  "Width 2 \<lparr>objs = [CImage [[CHR ''a'', newline, CHR ''b'']]],
            tbls = [\<lparr>Rows = 1, Cols = 1, Cells = [[0]]\<rparr>]\<rparr> 0 = Inr 3
   \<and> Height 2 \<lparr>objs = [CImage [[CHR ''a'', newline, CHR ''b'']]],
               tbls = [\<lparr>Rows = 1, Cols = 1, Cells = [[0]]\<rparr>]\<rparr> 0 = Inr 1
   \<and> Output 2 \<lparr>objs = [CImage [[CHR ''a'', newline, CHR ''b'']]],
               tbls = [\<lparr>Rows = 1, Cols = 1, Cells = [[0]]\<rparr>]\<rparr> 0 1 3
       = Inr [[CHR ''a'', newline, CHR ''b'']]
   \<and> render 3 \<lparr>objs = [CImage [[CHR ''a'', newline, CHR ''b'']]],
               tbls = [\<lparr>Rows = 1, Cols = 1, Cells = [[0]]\<rparr>]\<rparr> 0
       = Inr (''+---+'' @ [newline] @ [CHR ''|'', CHR ''a'', newline, CHR ''b'', CHR ''|'']
              @ [newline] @ ''+---+'' @ [newline])
   \<and> text_lines (''+---+'' @ [newline] @ [CHR ''|'', CHR ''a'', newline, CHR ''b'', CHR ''|'']
                 @ [newline] @ ''+---+'' @ [newline])
       = [''+---+'', ''|a'', ''b|'', ''+---+'']
   \<and> spec_lines 1 1 (\<lambda>c. 3) (\<lambda>r. 1) (\<lambda>r c. [[CHR ''a'', newline, CHR ''b'']])
       = [''+---+'', [CHR ''|'', CHR ''a'', newline, CHR ''b'', CHR ''|''], ''+---+'']
   \<and> text_lines (''+---+'' @ [newline] @ [CHR ''|'', CHR ''a'', newline, CHR ''b'', CHR ''|'']
                 @ [newline] @ ''+---+'' @ [newline])
       \<noteq> spec_lines 1 1 (\<lambda>c. 3) (\<lambda>r. 1) (\<lambda>r c. [[CHR ''a'', newline, CHR ''b'']])"
  by (simp add: eval_nat_numeral Let_def maxColWidths_def maxRowHeights_def
        printBorder_def printRow_def printLine_def CImage_Width_def CImage_Height_def
        CImage_Output_def CImage_loop.simps CImage_put_def string_replace_def
        text_lines_def spec_lines_def spec_border_def spec_content_line_def)

lemma in_range_origin:
  "CTable_inv T \<Longrightarrow> r < Rows T \<Longrightarrow> c < Cols T \<Longrightarrow> in_range T r c"
  by (simp add: CTable_inv_def in_range_def)

lemma getCell_put_cell:
  assumes "CTable_inv (tbls h ! t)" "r < Rows (tbls h ! t)" "c < Cols (tbls h ! t)"
    and "tbls h2 ! t = put_cell (tbls h ! t) r c a"
  shows "getCell h2 t r c = Inr a"
proof -
  have "in_range (put_cell (tbls h ! t) r c a) r c"
    by (rule in_range_origin[OF put_cell_inv[OF assms(1)]]) (use assms(2,3) in simp_all)
  moreover have "Cells (put_cell (tbls h ! t) r c a) ! r ! c = a"
    using put_cell_nth[OF assms(1,2,3)] by simp
  ultimately show ?thesis by (simp add: getCell_def assms(4))
qed





lemma getCell_same_table: "tbls h' ! t = tbls h ! t \<Longrightarrow> getCell h' t r c = getCell h t r c"
  by (simp add: getCell_def)

lemma run_leaves_other_tables:
  assumes "store_inv h1" "user_table h1 src" "dst < length (tbls h1)" "dst \<noteq> src"
    and "valid_run h1 ms" "\<forall>m\<in>set ms. receiver m = src" "run h1 ms = Inr h2"
  shows "tbls h2 ! dst = tbls h1 ! dst
         \<and> (\<forall>a\<in>cells_of (tbls h1 ! dst). \<forall>n.
               Width n h2 a = Width n h1 a \<and> Height n h2 a = Height n h1 a
             \<and> Output n h2 a = Output n h1 a)"
  using assms
proof (induction ms arbitrary: h1)
  case Nil
  then show ?case by simp
next
  case (Cons m ms)
  from Cons.prems(7) obtain h' where ex: "exec h1 m = Inr h'" and rest: "run h' ms = Inr h2"
    by (auto split: sum.splits)
  from Cons.prems(5) ex have vc: "valid_call h1 m" and vr: "valid_run h' ms" by simp_all
  from Cons.prems(6) have rm: "receiver m = src" and rms: "\<forall>m\<in>set ms. receiver m = src"
    by simp_all
  from exec_effect[OF Cons.prems(1) vc ex] rm obtain X where
    inv': "store_inv h'" and ut': "user_table h' src"
    and touch: "only_touches h1 h' src X" and X: "X \<subseteq> cells_of (tbls h1 ! src)"
    and len: "length (tbls h1) \<le> length (tbls h')"
    using Cons.prems(2) unfolding effect_ok_def by blast
  from Cons.prems(1) have ok: "heap_ok h1" and gd: "grids_disjoint h1"
    by (simp_all add: store_inv_def)
  from Cons.prems(2) have srcl: "src < length (tbls h1)" by (simp add: user_table_def)
  have same: "tbls h' ! dst = tbls h1 ! dst"
    using touch Cons.prems(3,4) by (simp add: only_touches_def)
  have dst': "dst < length (tbls h')" using Cons.prems(3) len by simp
  from Cons.IH[OF inv' ut' dst' Cons.prems(4) vr rms rest]
  have IH1: "tbls h2 ! dst = tbls h' ! dst"
    and IH2: "\<forall>a\<in>cells_of (tbls h' ! dst). \<forall>n.
               Width n h2 a = Width n h' a \<and> Height n h2 a = Height n h' a
             \<and> Output n h2 a = Output n h' a" by blast+
  have Xc: "X = {} \<or> grids_disjoint h1 \<and> src < length (tbls h1) \<and> X \<subseteq> cells_of (tbls h1 ! src)"
    using gd srcl X by blast
  have step: "Width n h' a = Width n h1 a \<and> Height n h' a = Height n h1 a
             \<and> Output n h' a = Output n h1 a" if "a \<in> cells_of (tbls h1 ! dst)" for a n
  proof -
    have "a \<in> their_cells h1 src"
      using that Cons.prems(3,4) by (auto simp: their_cells_def others_def)
    then show ?thesis
      using others_unchanged(2,3,4)[OF ok Cons.prems(2) touch Xc] by blast
  qed
  show ?case
  proof (intro conjI ballI allI)
    show "tbls h2 ! dst = tbls h1 ! dst" using IH1 same by simp
    fix a n assume a: "a \<in> cells_of (tbls h1 ! dst)"
    then have a': "a \<in> cells_of (tbls h' ! dst)" by (simp add: same)
    show "Width n h2 a = Width n h1 a" using IH2 a' step[OF a] by simp
    show "Height n h2 a = Height n h1 a" using IH2 a' step[OF a] by simp
    show "Output n h2 a = Output n h1 a" using IH2 a' step[OF a] by simp
  qed
qed

text \<open>
  C3. After \<^verbatim>\<open>dst.setCell(r, c, src)\<close> cell (r,c) of \<open>dst\<close> shows the rendering \<open>src\<close> had at
  the call. No later sequence of calls on \<open>src\<close> (replacing cells, assigning to it,
  \<^verbatim>\<open>setText\<close> or \<^verbatim>\<open>addRow\<close> on one of its cells) changes which object that cell of \<open>dst\<close> is,
  or its width, its height or its output for any size and any fuel.
\<close>

theorem snapshot_is_frozen:
  assumes inv: "store_inv h" and src: "user_table h src" and dst: "user_table h dst"
    and ne: "src \<noteq> dst" and r: "r < Rows (tbls h ! dst)" and c: "c < Cols (tbls h ! dst)"
  shows "\<exists>h1 a. setCell_table h dst r c src = Inr h1
           \<and> getCell h1 dst r c = Inr a
           \<and> (\<forall>n s height width. render n h src = Inr s \<longrightarrow>
                 Output (Suc n) h1 a height width = Inr (CTableCell_Output s height width))
           \<and> (\<forall>ms h2. valid_run h1 ms \<and> (\<forall>m\<in>set ms. receiver m = src) \<and> run h1 ms = Inr h2
                 \<longrightarrow> getCell h2 dst r c = Inr a
                   \<and> (\<forall>n. Width n h2 a = Width n h1 a \<and> Height n h2 a = Height n h1 a
                          \<and> Output n h2 a = Output n h1 a))"
proof -
  from inv have ok: "heap_ok h" and gd: "grids_disjoint h" by (simp_all add: store_inv_def)
  from dst have d: "dst < length (tbls h)" by (simp add: user_table_def)
  from src have s: "src < length (tbls h)" by (simp add: user_table_def)
  have invd: "CTable_inv (tbls h ! dst)" by (rule heap_okD_inv[OF ok d])
  from setCell_table_effect[OF ok dst s in_range_origin[OF invd r c]]
  obtain h1 a where E: "setCell_table h dst r c src = Inr h1" "heap_ok h1"
    "grids_disjoint h \<Longrightarrow> grids_disjoint h1"
    "\<And>q. user_table h q \<Longrightarrow> user_table h1 q"
    "tbls h1 ! dst = put_cell (tbls h ! dst) r c a"
    "objs h1 ! a = CTableCell (length (tbls h))"
    "length (tbls h1) = Suc (length (tbls h))"
    "\<And>n. render n h1 (length (tbls h)) = render n h src"
    by metis
  have cell: "getCell h1 dst r c = Inr a"
    by (rule getCell_put_cell[OF invd r c E(5)])
  have out: "Output (Suc n) h1 a height width = Inr (CTableCell_Output s height width)"
    if "render n h src = Inr s" for n s height width
    using that by (simp add: E(6) E(8))
  have inv1: "store_inv h1" using E(2) E(3)[OF gd] by (simp add: store_inv_def)
  have d1: "dst < length (tbls h1)" using d E(7) by simp
  have a_in: "a \<in> cells_of (tbls h1 ! dst)" by (rule getCell_in_grid[OF cell])
  have frozen: "getCell h2 dst r c = Inr a
        \<and> (\<forall>n. Width n h2 a = Width n h1 a \<and> Height n h2 a = Height n h1 a
               \<and> Output n h2 a = Output n h1 a)"
    if "valid_run h1 ms" "\<forall>m\<in>set ms. receiver m = src" "run h1 ms = Inr h2" for ms h2
  proof -
    from run_leaves_other_tables[OF inv1 E(4)[OF src] d1 ne[symmetric] that]
    have 1: "tbls h2 ! dst = tbls h1 ! dst"
      and 2: "\<forall>a\<in>cells_of (tbls h1 ! dst). \<forall>n.
               Width n h2 a = Width n h1 a \<and> Height n h2 a = Height n h1 a
             \<and> Output n h2 a = Output n h1 a" by blast+
    from getCell_same_table[OF 1] cell 2 a_in show ?thesis by simp
  qed
  from E(1) cell out frozen show ?thesis by blast
qed

lemma snapshot_example:
  "setCell_table \<lparr>objs = [CText [''a''] ALIGN_LEFT, CEmpty],
                  tbls = [\<lparr>Rows = 1, Cols = 1, Cells = [[0]]\<rparr>, \<lparr>Rows = 1, Cols = 1, Cells = [[1]]\<rparr>]\<rparr>
     1 0 0 0
   = Inr \<lparr>objs = [CText [''a''] ALIGN_LEFT, CEmpty, CText [''a''] ALIGN_LEFT, CTableCell 2],
          tbls = [\<lparr>Rows = 1, Cols = 1, Cells = [[0]]\<rparr>, \<lparr>Rows = 1, Cols = 1, Cells = [[3]]\<rparr>,
                  \<lparr>Rows = 1, Cols = 1, Cells = [[2]]\<rparr>]\<rparr>"
  by (simp add: setCell_table_def CTableCell_ctor_def CTable_copy_def grid_addrs_def Clone_def
      new_obj_def new_table_def in_range_def store_cell_def Let_def)

lemma snapshot_example_run:
  "run \<lparr>objs = [CText [''a''] ALIGN_LEFT, CEmpty, CText [''a''] ALIGN_LEFT, CTableCell 2],
          tbls = [\<lparr>Rows = 1, Cols = 1, Cells = [[0]]\<rparr>, \<lparr>Rows = 1, Cols = 1, Cells = [[3]]\<rparr>,
                  \<lparr>Rows = 1, Cols = 1, Cells = [[2]]\<rparr>]\<rparr> [SetText 0 0 0 ''zz'']
   = Inr \<lparr>objs = [CText [''zz''] ALIGN_LEFT, CEmpty, CText [''a''] ALIGN_LEFT, CTableCell 2],
          tbls = [\<lparr>Rows = 1, Cols = 1, Cells = [[0]]\<rparr>, \<lparr>Rows = 1, Cols = 1, Cells = [[3]]\<rparr>,
                  \<lparr>Rows = 1, Cols = 1, Cells = [[2]]\<rparr>]\<rparr>"
  by (simp add: getCell_def in_range_def setText_at_def setText_def getlines_def)

lemma snapshot_example_output:
  "Output 3 \<lparr>objs = [CText [''a''] ALIGN_LEFT, CEmpty, CText [''a''] ALIGN_LEFT, CTableCell 2],
          tbls = [\<lparr>Rows = 1, Cols = 1, Cells = [[0]]\<rparr>, \<lparr>Rows = 1, Cols = 1, Cells = [[3]]\<rparr>,
                  \<lparr>Rows = 1, Cols = 1, Cells = [[2]]\<rparr>]\<rparr> 3 3 3
     = Inr [''+-+'', ''|a|'', ''+-+'']"
  by (simp add: eval_nat_numeral Let_def maxColWidths_def maxRowHeights_def
        printBorder_def printRow_def printLine_def CText_Output_def CText_line_def
        CText_Width_def CText_Height_def CTableCell_Output_def getlines_def)

text \<open>
  The theorem at two 1\<times>1 tables, the source holding the text \<^verbatim>\<open>a\<close>: after the insertion
  the text of the source is set to \<^verbatim>\<open>zz\<close>, and the cell of the destination still shows
  the table around \<^verbatim>\<open>a\<close>.
\<close>

theorem snapshot_is_frozen_witness:
  "store_inv \<lparr>objs = [CText [''a''] ALIGN_LEFT, CEmpty],
              tbls = [\<lparr>Rows = 1, Cols = 1, Cells = [[0]]\<rparr>, \<lparr>Rows = 1, Cols = 1, Cells = [[1]]\<rparr>]\<rparr>
   \<and> user_table \<lparr>objs = [CText [''a''] ALIGN_LEFT, CEmpty],
              tbls = [\<lparr>Rows = 1, Cols = 1, Cells = [[0]]\<rparr>, \<lparr>Rows = 1, Cols = 1, Cells = [[1]]\<rparr>]\<rparr> 0
   \<and> user_table \<lparr>objs = [CText [''a''] ALIGN_LEFT, CEmpty],
              tbls = [\<lparr>Rows = 1, Cols = 1, Cells = [[0]]\<rparr>, \<lparr>Rows = 1, Cols = 1, Cells = [[1]]\<rparr>]\<rparr> 1
   \<and> (\<exists>h1 a h2.
         setCell_table \<lparr>objs = [CText [''a''] ALIGN_LEFT, CEmpty],
              tbls = [\<lparr>Rows = 1, Cols = 1, Cells = [[0]]\<rparr>, \<lparr>Rows = 1, Cols = 1, Cells = [[1]]\<rparr>]\<rparr>
           1 0 0 0 = Inr h1
       \<and> getCell h1 1 0 0 = Inr a
       \<and> valid_run h1 [SetText 0 0 0 ''zz'']
       \<and> run h1 [SetText 0 0 0 ''zz''] = Inr h2
       \<and> objs h2 ! 0 = CText [''zz''] ALIGN_LEFT
       \<and> getCell h2 1 0 0 = Inr a
       \<and> Output 3 h2 a 3 3 = Output 3 h1 a 3 3
       \<and> Output 3 h1 a 3 3 = Inr [''+-+'', ''|a|'', ''+-+''])"
proof -
  define h where "h = \<lparr>objs = [CText [''a''] ALIGN_LEFT, CEmpty],
              tbls = [\<lparr>Rows = 1, Cols = 1, Cells = [[0]]\<rparr>, \<lparr>Rows = 1, Cols = 1, Cells = [[1]]\<rparr>]\<rparr>"
  define k1 where "k1 = \<lparr>objs = [CText [''a''] ALIGN_LEFT, CEmpty, CText [''a''] ALIGN_LEFT, CTableCell 2],
          tbls = [\<lparr>Rows = 1, Cols = 1, Cells = [[0]]\<rparr>, \<lparr>Rows = 1, Cols = 1, Cells = [[3]]\<rparr>,
                  \<lparr>Rows = 1, Cols = 1, Cells = [[2]]\<rparr>]\<rparr>"
  define k2 where "k2 = \<lparr>objs = [CText [''zz''] ALIGN_LEFT, CEmpty, CText [''a''] ALIGN_LEFT, CTableCell 2],
          tbls = [\<lparr>Rows = 1, Cols = 1, Cells = [[0]]\<rparr>, \<lparr>Rows = 1, Cols = 1, Cells = [[3]]\<rparr>,
                  \<lparr>Rows = 1, Cols = 1, Cells = [[2]]\<rparr>]\<rparr>"
  have inv: "store_inv h"
    by (simp add: h_def store_inv_def heap_ok_def grids_disjoint_def CTable_inv_def cells_of_def
        points_to_def less_Suc_eq)
  have u0: "user_table h 0" and u1: "user_table h 1"
    by (simp_all add: h_def user_table_def points_to_def less_Suc_eq)
  have set1: "setCell_table h 1 0 0 0 = Inr k1"
    unfolding h_def k1_def by (rule snapshot_example)
  have run1: "run k1 [SetText 0 0 0 ''zz''] = Inr k2"
    unfolding k1_def k2_def by (rule snapshot_example_run)
  have valid: "valid_run k1 [SetText 0 0 0 ''zz'']"
    by (simp add: k1_def user_table_def points_to_def less_Suc_eq eval_nat_numeral
        getCell_def in_range_def setText_at_def)
  have out1: "Output 3 k1 3 3 3 = Inr [''+-+'', ''|a|'', ''+-+'']"
    unfolding k1_def by (rule snapshot_example_output)
  from snapshot_is_frozen[OF inv u0 u1, of 0 0]
  obtain h1 a where E: "setCell_table h 1 0 0 0 = Inr h1" "getCell h1 1 0 0 = Inr a"
    "\<forall>ms h2. valid_run h1 ms \<and> (\<forall>m\<in>set ms. receiver m = 0) \<and> run h1 ms = Inr h2
                 \<longrightarrow> getCell h2 1 0 0 = Inr a
                   \<and> (\<forall>n. Width n h2 a = Width n h1 a \<and> Height n h2 a = Height n h1 a
                          \<and> Output n h2 a = Output n h1 a)"
    by (auto simp: h_def)
  from E(1) set1 have h1: "h1 = k1" by simp
  from E(2) have a: "a = 3" by (simp add: h1 k1_def getCell_def in_range_def)
  from E(3) valid run1 have F: "getCell k2 1 0 0 = Inr a" "Output 3 k2 a 3 3 = Output 3 k1 a 3 3"
    unfolding h1 by fastforce+
  have z: "objs k2 ! 0 = CText [''zz''] ALIGN_LEFT" by (simp add: k2_def)
  from inv u0 u1 E(1) E(2) valid run1 z F out1 show ?thesis
    unfolding h1 a h_def[symmetric] by blast
qed

section \<open>Equality of an object with its clone\<close>

lemma allF_all_true: "(\<And>x. x \<in> set xs \<Longrightarrow> f x = Inr True) \<Longrightarrow> allF f xs = Inr True"
  by (induction xs) simp_all

lemma CTable_eq_refl:
  assumes "\<And>r c. r < Rows (tbls h ! p) \<Longrightarrow> c < Cols (tbls h ! p) \<Longrightarrow>
             CBase_eq k h (Cells (tbls h ! p) ! r ! c) (Cells (tbls h ! p) ! r ! c) = Inr True"
  shows "CTable_eq (Suc k) h p p = Inr True"
proof -
  have "allF (\<lambda>(r, c). CBase_eq k h (Cells (tbls h ! p) ! r ! c) (Cells (tbls h ! p) ! r ! c))
          (List.product [0..<Rows (tbls h ! p)] [0..<Cols (tbls h ! p)]) = Inr True"
    by (rule allF_all_true) (use assms in auto)
  then show ?thesis by (simp add: Let_def)
qed

lemma CBase_eq_same_object:
  assumes ok: "heap_ok h"
  shows "b < length (objs h) \<Longrightarrow> objs h ! b' = objs h ! b \<Longrightarrow> 2 * b + 2 \<le> n
           \<Longrightarrow> CBase_eq n h b' b = Inr True"
proof (induction b arbitrary: n b' rule: less_induct)
  case (less b)
  then obtain m where n: "n = Suc m" and m: "2 * b + 1 \<le> m" by (cases n) auto
  show ?case
  proof (cases "objs h ! b")
    case (CTableCell p)
    then have pt: "p \<in> points_to (objs h ! b)" by (simp add: points_to_def)
    have p: "p < length (tbls h)" by (rule heap_okD_ptr[OF ok less.prems(1) pt])
    have inv: "CTable_inv (tbls h ! p)" by (rule heap_okD_inv[OF ok p])
    obtain k where mk: "m = Suc k" and k: "2 * b \<le> k" using m by (cases m) auto
    have "CBase_eq k h (Cells (tbls h ! p) ! r ! c) (Cells (tbls h ! p) ! r ! c) = Inr True"
      if rc: "r < Rows (tbls h ! p)" "c < Cols (tbls h ! p)" for r c
    proof -
      have lt: "Cells (tbls h ! p) ! r ! c < b"
        by (rule heap_okD_below[OF ok less.prems(1) pt cell_in_cells_of[OF inv rc]])
      show ?thesis
        by (rule less.IH[OF lt]) (use lt less.prems(1) k in simp_all)
    qed
    from CTable_eq_refl[of h p k, OF this] have "CTable_eq m h p p = Inr True" by (simp add: mk)
    with CTableCell less.prems(2) show ?thesis by (simp add: n)
  qed (use less.prems(2) in \<open>simp_all add: n\<close>)
qed

lemma closed_all:
  assumes ok: "heap_ok h"
  shows "closed h {b. b < length (objs h)} {q. q < length (tbls h)}"
  unfolding closed_def
proof (intro conjI ballI allI impI subsetI)
  fix a p assume "a \<in> {b. b < length (objs h)}" "p \<in> points_to (objs h ! a)"
  then show "p \<in> {q. q < length (tbls h)}" using heap_okD_ptr[OF ok] by simp
next
  fix q r c assume q: "q \<in> {q. q < length (tbls h)}"
    and rc: "r < Rows (tbls h ! q)" "c < Cols (tbls h ! q)"
  from q have ql: "q < length (tbls h)" by simp
  from heap_okD_cells[OF ok ql cell_in_cells_of[OF heap_okD_inv[OF ok ql] rc]]
  show "Cells (tbls h ! q) ! r ! c \<in> {b. b < length (objs h)}" by simp
qed

lemma old_store_renders_same:
  assumes ok: "heap_ok h" and tb: "tbls h' = tbls h"
    and ob: "\<And>b. b < length (objs h) \<Longrightarrow> objs h' ! b = objs h ! b"
    and a: "a < length (objs h)"
  shows "Width k h' a = Width k h a \<and> Height k h' a = Height k h a
         \<and> Output k h' a = Output k h a"
proof -
  have "agree h h' {b. b < length (objs h)} {q. q < length (tbls h)}"
    using tb ob by (simp add: agree_def)
  from frame[OF closed_all[OF ok] this, of k] a show ?thesis by simp
qed

text \<open>
  C4. The clone of a content object of any of the four classes is a new object that
  compares equal to the original under \<^verbatim>\<open>operator==\<close>. Changing the clone afterwards by
  \<^verbatim>\<open>setText\<close> or \<^verbatim>\<open>addRow\<close> (the only mutators the classes have) leaves every object and
  table of the store before the clone as it was, and so the original and all it renders.
\<close>

theorem clone_equal_and_independent:
  assumes ok: "heap_ok h" and a: "a < length (objs h)" and fuel: "2 * length (objs h) \<le> n"
  shows "\<exists>h' a'. Clone h a = (h', a') \<and> a' \<noteq> a \<and> CBase_eq n h' a' a = Inr True
           \<and> (\<forall>str h''. setText_at h' a' str = Inr h'' \<or> addRow_at h' a' str = Inr h'' \<longrightarrow>
                 tbls h'' = tbls h \<and> (\<forall>b<length (objs h). objs h'' ! b = objs h ! b)
               \<and> (\<forall>k. Width k h'' a = Width k h a \<and> Height k h'' a = Height k h a
                      \<and> Output k h'' a = Output k h a))"
proof -
  define h' where "h' = h\<lparr>objs := objs h @ [objs h ! a]\<rparr>"
  define a' where "a' = length (objs h)"
  have cl: "Clone h a = (h', a')" by (simp add: Clone_def new_obj_def h'_def a'_def)
  have ne: "a' \<noteq> a" using a by (simp add: a'_def)
  have ok': "heap_ok h'" by (rule heap_ok_extends[OF ok Clone_extends[OF cl a]])
  have same: "objs h' ! a' = objs h' ! a" using a by (simp add: h'_def a'_def nth_append)
  have eq: "CBase_eq n h' a' a = Inr True"
    by (rule CBase_eq_same_object[OF ok' _ same]) (use a fuel in \<open>simp_all add: h'_def\<close>)
  have indep: "tbls h'' = tbls h \<and> (\<forall>b<length (objs h). objs h'' ! b = objs h ! b)
               \<and> (\<forall>k. Width k h'' a = Width k h a \<and> Height k h'' a = Height k h a
                      \<and> Output k h'' a = Output k h a)"
    if mut: "setText_at h' a' str = Inr h'' \<or> addRow_at h' a' str = Inr h''" for str h''
  proof -
    from mut obtain x where h'': "h'' = h'\<lparr>objs := (objs h')[a' := x]\<rparr>"
      by (auto simp: setText_at_def addRow_at_def split: CBase.splits)
    have tb: "tbls h'' = tbls h" by (simp add: h'' h'_def)
    have ob: "objs h'' ! b = objs h ! b" if "b < length (objs h)" for b
      using that by (simp add: h'' h'_def a'_def nth_append)
    from old_store_renders_same[OF ok tb ob a] tb ob show ?thesis by blast
  qed
  from cl ne eq indep show ?thesis by blast
qed

text \<open>
  The theorem at the text \<^verbatim>\<open>a\<close>: its clone compares equal, and setting the text of the
  clone to \<^verbatim>\<open>zz\<close> leaves the original \<^verbatim>\<open>a\<close>.
\<close>

theorem clone_equal_and_independent_witness:
  "heap_ok \<lparr>objs = [CText [''a''] ALIGN_LEFT], tbls = []\<rparr>
   \<and> Clone \<lparr>objs = [CText [''a''] ALIGN_LEFT], tbls = []\<rparr> 0
       = (\<lparr>objs = [CText [''a''] ALIGN_LEFT, CText [''a''] ALIGN_LEFT], tbls = []\<rparr>, 1)
   \<and> CBase_eq 2 \<lparr>objs = [CText [''a''] ALIGN_LEFT, CText [''a''] ALIGN_LEFT], tbls = []\<rparr> 1 0
       = Inr True
   \<and> setText_at \<lparr>objs = [CText [''a''] ALIGN_LEFT, CText [''a''] ALIGN_LEFT], tbls = []\<rparr> 1 ''zz''
       = Inr \<lparr>objs = [CText [''a''] ALIGN_LEFT, CText [''zz''] ALIGN_LEFT], tbls = []\<rparr>
   \<and> objs \<lparr>objs = [CText [''a''] ALIGN_LEFT, CText [''zz''] ALIGN_LEFT], tbls = []\<rparr> ! 0
       = CText [''a''] ALIGN_LEFT
   \<and> Output 1 \<lparr>objs = [CText [''a''] ALIGN_LEFT, CText [''zz''] ALIGN_LEFT], tbls = []\<rparr> 0
       = Output 1 \<lparr>objs = [CText [''a''] ALIGN_LEFT], tbls = []\<rparr> 0"
proof -
  define h where "h = \<lparr>objs = [CText [''a''] ALIGN_LEFT], tbls = []\<rparr>"
  define h1 where "h1 = \<lparr>objs = [CText [''a''] ALIGN_LEFT, CText [''a''] ALIGN_LEFT], tbls = []\<rparr>"
  define h2 where "h2 = \<lparr>objs = [CText [''a''] ALIGN_LEFT, CText [''zz''] ALIGN_LEFT], tbls = []\<rparr>"
  have ok: "heap_ok h" by (simp add: h_def heap_ok_def points_to_def)
  have a: "0 < length (objs h)" and fuel: "2 * length (objs h) \<le> 2" by (simp_all add: h_def)
  have cl: "Clone h 0 = (h1, 1)" by (simp add: Clone_def new_obj_def h_def h1_def)
  have st: "setText_at h1 1 ''zz'' = Inr h2"
    by (simp add: setText_at_def setText_def getlines_def h1_def h2_def)
  from clone_equal_and_independent[OF ok a fuel] cl
  have eq: "CBase_eq 2 h1 1 0 = Inr True"
    and ind: "\<forall>str h''. setText_at h1 1 str = Inr h'' \<or> addRow_at h1 1 str = Inr h'' \<longrightarrow>
                 tbls h'' = tbls h \<and> (\<forall>b<length (objs h). objs h'' ! b = objs h ! b)
               \<and> (\<forall>k. Width k h'' 0 = Width k h 0 \<and> Height k h'' 0 = Height k h 0
                      \<and> Output k h'' 0 = Output k h 0)"
    by auto
  from ind st a have "objs h2 ! 0 = objs h ! 0" "Output 1 h2 0 = Output 1 h 0" by blast+
  then have "objs h2 ! 0 = CText [''a''] ALIGN_LEFT" "Output 1 h2 0 = Output 1 h 0"
    by (simp_all add: h_def)
  with ok cl eq st show ?thesis unfolding h_def h1_def h2_def by blast
qed

text \<open>
  C5 (as amended). A 1\<times>1 table whose single cell is \<^verbatim>\<open>CEmpty\<close> has column width 0 and
  row height 0: it renders as two bare borders with no content line between them, the
  text \<^verbatim>\<open>"++\n++\n"\<close>, for every amount of fuel from 2 on.
\<close>

theorem empty_1x1_renders_two_borders:
  "case CTable_ctor h 1 1 of (h', t) \<Rightarrow>
     render (Suc (Suc n)) h' t = Inr (''++'' @ [newline] @ ''++'' @ [newline])"
  by (simp add: CTable_ctor_def new_obj_def new_table_def Let_def nth_append
      maxColWidths_def maxRowHeights_def printBorder_def printRow_def printLine_def
      CEmpty_Output_def)

text \<open>
  C5 as stated fails: the table built by \<^verbatim>\<open>CTable(1, 1)\<close> in an empty store does not render
  as \<^verbatim>\<open>"+-+\n||\n+-+\n"\<close>.
\<close>

theorem empty_1x1_counterexample:
  "render 2 (fst (CTable_ctor \<lparr>objs = [], tbls = []\<rparr> 1 1))
            (snd (CTable_ctor \<lparr>objs = [], tbls = []\<rparr> 1 1))
     \<noteq> Inr (''+-+'' @ [newline] @ ''||'' @ [newline] @ ''+-+'' @ [newline])"
  by (simp add: CTable_ctor_def new_obj_def new_table_def Let_def nth_append numeral_2_eq_2
      maxColWidths_def maxRowHeights_def printBorder_def printRow_def printLine_def
      CEmpty_Output_def)

text \<open>
  C6 (as amended). \<^verbatim>\<open>getCell\<close> and both overloads of \<^verbatim>\<open>setCell\<close> index the grid with the
  unchecked \<^verbatim>\<open>operator[]\<close>. For a table of the store and a pair with \<open>row \<ge> Rows\<close> or
  \<open>col \<ge> Cols\<close> the access is out of range: its behaviour is undefined, no exception is
  thrown, and the calls give no resulting table.
\<close>

theorem out_of_range_is_unchecked:
  assumes t: "t < length (tbls h)" and inv: "CTable_inv (tbls h ! t)"
    and out: "Rows (tbls h ! t) \<le> row \<or> Cols (tbls h ! t) \<le> col"
  shows "getCell h t row col = Inl undefined_behaviour
         \<and> setCell h t row col cell = Inl undefined_behaviour
         \<and> setCell_table h t row col table = Inl undefined_behaviour
         \<and> \<not> is_exception undefined_behaviour"
proof -
  from out have nr: "\<not> in_range (tbls h ! t) row col"
    using in_range_inv[OF inv, of row col] by auto
  have 1: "getCell h t row col = Inl undefined_behaviour"
    using nr by (simp add: getCell_def)
  have 2: "setCell h t row col cell = Inl undefined_behaviour"
    using nr by (simp add: setCell_def Clone_def new_obj_def)
  obtain h1 a where c: "CTableCell_ctor h table = (h1, a)" by (cases "CTableCell_ctor h table")
  from CTableCell_ctor_tbls[of h table] c obtain T0 where "tbls h1 = tbls h @ [T0]" by auto
  with t have "tbls h1 ! t = tbls h ! t" by (simp add: nth_append)
  with nr c have 3: "setCell_table h t row col table = Inl undefined_behaviour"
    by (simp add: setCell_table_def)
  from 1 2 3 show ?thesis by (simp add: is_exception_def)
qed

text \<open>The theorem at the 1\<times>1 table, read and written at row 1.\<close>

theorem out_of_range_is_unchecked_witness:
  "CTable_inv (tbls \<lparr>objs = [CEmpty], tbls = [\<lparr>Rows = 1, Cols = 1, Cells = [[0]]\<rparr>]\<rparr> ! 0)
   \<and> getCell \<lparr>objs = [CEmpty], tbls = [\<lparr>Rows = 1, Cols = 1, Cells = [[0]]\<rparr>]\<rparr> 0 1 0
       = Inl undefined_behaviour
   \<and> setCell \<lparr>objs = [CEmpty], tbls = [\<lparr>Rows = 1, Cols = 1, Cells = [[0]]\<rparr>]\<rparr> 0 1 0 0
       = Inl undefined_behaviour
   \<and> setCell_table \<lparr>objs = [CEmpty], tbls = [\<lparr>Rows = 1, Cols = 1, Cells = [[0]]\<rparr>]\<rparr> 0 1 0 0
       = Inl undefined_behaviour"
proof -
  define h where "h = \<lparr>objs = [CEmpty], tbls = [\<lparr>Rows = 1, Cols = 1, Cells = [[0]]\<rparr>]\<rparr>"
  have t: "0 < length (tbls h)" and inv: "CTable_inv (tbls h ! 0)"
    and out: "Rows (tbls h ! 0) \<le> 1 \<or> Cols (tbls h ! 0) \<le> 0"
    by (simp_all add: h_def CTable_inv_def)
  from out_of_range_is_unchecked[OF t inv out, of 0 0] inv show ?thesis
    unfolding h_def by blast
qed

text \<open>
  C6 as stated fails: reading the 1\<times>1 table at row 1 does not end in an exception.
\<close>

theorem out_of_range_counterexample:
  "\<not> (\<exists>e. getCell \<lparr>objs = [CEmpty], tbls = [\<lparr>Rows = 1, Cols = 1, Cells = [[0]]\<rparr>]\<rparr> 0 1 0 = Inl e
          \<and> is_exception e)"
  by (simp add: getCell_def in_range_def is_exception_def)

text \<open>
  C7. For a \<^verbatim>\<open>CText\<close> all of whose stored lines have at most \<open>width\<close> characters,
  \<^verbatim>\<open>Output(height, width)\<close> returns \<open>height\<close> strings of \<open>width\<close> characters each; string
  \<open>i\<close> is line \<open>i\<close> of the text, or the empty string from the line count on, followed by
  spaces for \<^verbatim>\<open>ALIGN_LEFT\<close> and preceded by spaces for \<^verbatim>\<open>ALIGN_RIGHT\<close>.
\<close>

theorem CText_Output_padded:
  assumes obj: "objs h ! a = CText lines format"
    and fits: "\<forall>l\<in>set lines. length l \<le> width"
  shows "\<exists>ls. Output (Suc n) h a height width = Inr ls \<and> length ls = height
           \<and> (\<forall>i<height. length (ls ! i) = width
                \<and> ls ! i = (let line = (if i < length lines then lines ! i else []);
                                pad = replicate (width - length line) space
                            in if format = ALIGN_LEFT then line @ pad else pad @ line))"
proof -
  let ?ls = "map (CText_pad lines format width) [0..<height]"
  have out: "Output (Suc n) h a height width = Inr ?ls"
    using CText_Output_fits[OF fits] by (simp add: obj)
  have body: "length (?ls ! i) = width
          \<and> ?ls ! i = (let line = (if i < length lines then lines ! i else []);
                                pad = replicate (width - length line) space
                            in if format = ALIGN_LEFT then line @ pad else pad @ line)"
    if i: "i < height" for i
  proof -
    have "i < length lines \<Longrightarrow> length (lines ! i) \<le> width" using fits by simp
    then show ?thesis using i by (simp add: CText_pad_def Let_def)
  qed
  have len: "length ?ls = height" by simp
  show ?thesis
  proof (intro exI[of _ ?ls] conjI allI impI)
    show "Output (Suc n) h a height width = Inr ?ls" by (rule out)
    show "length ?ls = height" by (rule len)
    fix i assume i: "i < height"
    show "length (?ls ! i) = width" using body[OF i] by blast
    show "?ls ! i = (let line = (if i < length lines then lines ! i else []);
                                pad = replicate (width - length line) space
                            in if format = ALIGN_LEFT then line @ pad else pad @ line)"
      using body[OF i] by blast
  qed
qed

text \<open>The theorem at the text \<^verbatim>\<open>Hi\<close>, right-aligned in a block of 2 lines of 4 characters.\<close>

theorem CText_Output_padded_witness:
  "length ''Hi'' \<le> (4::nat)
   \<and> Output 1 \<lparr>objs = [CText [''Hi''] ALIGN_RIGHT], tbls = []\<rparr> 0 2 4 = Inr [''  Hi'', ''    '']"
proof -
  define h where "h = \<lparr>objs = [CText [''Hi''] ALIGN_RIGHT], tbls = []\<rparr>"
  have fits: "\<forall>l\<in>set [''Hi'']. length l \<le> 4" by simp
  have obj: "objs h ! 0 = CText [''Hi''] ALIGN_RIGHT" by (simp add: h_def)
  from CText_Output_padded[OF obj fits, of 0 2]
  obtain ls where ls: "Output (Suc 0) h 0 2 4 = Inr ls" "length ls = 2"
    and each: "\<forall>i<2. ls ! i = (let line = (if i < length [''Hi''] then [''Hi''] ! i else []);
                                pad = replicate (4 - length line) space
                            in if ALIGN_RIGHT = ALIGN_LEFT then line @ pad else pad @ line)"
    by blast
  from each have "ls ! 0 = ''  Hi''" by (simp add: Let_def eval_nat_numeral)
  moreover from each have "ls ! 1 = ''    ''" by (simp add: Let_def eval_nat_numeral)
  moreover have "ls = [ls ! 0, ls ! 1]"
    using ls(2) by (intro nth_equalityI) (auto simp: less_Suc_eq eval_nat_numeral)
  ultimately have "ls = [''  Hi'', ''    '']" by simp
  with ls(1) fits show ?thesis by (simp add: h_def)
qed

lemma assign_dims:
  assumes "t < length (tbls h)" "other \<noteq> t"
  shows "Rows (tbls (CTable_assign h t other) ! t) = Rows (tbls h ! other)
         \<and> Cols (tbls (CTable_assign h t other) ! t) = Cols (tbls h ! other)"
proof -
  obtain h1 g where g: "clone_grid h (grid_addrs (tbls h ! other)) = (h1, g)"
    by (cases "clone_grid h (grid_addrs (tbls h ! other))")
  have "tbls h1 = tbls h" using clone_grid_tbls[of h "grid_addrs (tbls h ! other)"] g by simp
  with assms g show ?thesis by (simp add: CTable_assign_def Let_def)
qed

text \<open>
  C8 (as amended). A table constructed with dimensions (R, C) keeps them through every
  sequence of calls that does not assign to it: replacing cells of this or of any other
  table, with a content or with a table, \<^verbatim>\<open>setText\<close> and \<^verbatim>\<open>addRow\<close> on cells, and
  assignments to other tables. (Rendering and comparison return no store.) An assignment
  \<^verbatim>\<open>t = other\<close> from another table gives \<open>t\<close> the dimensions of \<open>other\<close>.
\<close>

theorem dimensions_fixed_without_assignment:
  assumes ctor: "CTable_ctor h R C = (h0, t)" and run: "run h0 ms = Inr h'"
    and na: "\<forall>m\<in>set ms. \<forall>other. m \<noteq> Assign t other"
  shows "Rows (tbls h' ! t) = R \<and> Cols (tbls h' ! t) = C
         \<and> (\<forall>other. other \<noteq> t \<longrightarrow>
               Rows (tbls (CTable_assign h' t other) ! t) = Rows (tbls h' ! other)
             \<and> Cols (tbls (CTable_assign h' t other) ! t) = Cols (tbls h' ! other))"
proof -
  from CTable_ctor_dims[OF ctor]
  have t: "t < length (tbls h0)" and d: "Rows (tbls h0 ! t) = R" "Cols (tbls h0 ! t) = C"
    by simp_all
  from run_dims[OF t run na] d
  have "t < length (tbls h')" "Rows (tbls h' ! t) = R" "Cols (tbls h' ! t) = C" by simp_all
  with assign_dims[of t h'] show ?thesis by blast
qed

text \<open>
  The theorem at a 1\<times>2 table whose cell (0,1) is replaced by a copy of cell (0,0).
\<close>

theorem dimensions_fixed_without_assignment_witness:
  "CTable_ctor \<lparr>objs = [], tbls = []\<rparr> 1 2
     = (\<lparr>objs = [CEmpty, CEmpty], tbls = [\<lparr>Rows = 1, Cols = 2, Cells = [[0, 1]]\<rparr>]\<rparr>, 0)
   \<and> run \<lparr>objs = [CEmpty, CEmpty], tbls = [\<lparr>Rows = 1, Cols = 2, Cells = [[0, 1]]\<rparr>]\<rparr>
          [SetCell 0 0 1 0]
       = Inr \<lparr>objs = [CEmpty, CEmpty, CEmpty], tbls = [\<lparr>Rows = 1, Cols = 2, Cells = [[0, 2]]\<rparr>]\<rparr>
   \<and> Rows (tbls \<lparr>objs = [CEmpty, CEmpty, CEmpty],
                  tbls = [\<lparr>Rows = 1, Cols = 2, Cells = [[0, 2]]\<rparr>]\<rparr> ! 0) = 1
   \<and> Cols (tbls \<lparr>objs = [CEmpty, CEmpty, CEmpty],
                  tbls = [\<lparr>Rows = 1, Cols = 2, Cells = [[0, 2]]\<rparr>]\<rparr> ! 0) = 2"
proof -
  define h0 where "h0 = \<lparr>objs = [CEmpty, CEmpty], tbls = [\<lparr>Rows = 1, Cols = 2, Cells = [[0, 1]]\<rparr>]\<rparr>"
  define h1 where "h1 = \<lparr>objs = [CEmpty, CEmpty, CEmpty], tbls = [\<lparr>Rows = 1, Cols = 2, Cells = [[0, 2]]\<rparr>]\<rparr>"
  have ctor: "CTable_ctor \<lparr>objs = [], tbls = []\<rparr> 1 2 = (h0, 0)"
    by (simp add: CTable_ctor_def new_obj_def new_table_def h0_def eval_nat_numeral)
  have run: "run h0 [SetCell 0 0 1 0] = Inr h1"
    by (simp add: h0_def h1_def setCell_def Clone_def new_obj_def in_range_def store_cell_def)
  have na: "\<forall>m\<in>set [SetCell 0 0 1 0]. \<forall>other. m \<noteq> Assign 0 other" by simp
  from dimensions_fixed_without_assignment[OF ctor run na]
  have "Rows (tbls h1 ! 0) = 1 \<and> Cols (tbls h1 ! 0) = 2" by blast
  with ctor run show ?thesis unfolding h0_def h1_def by blast
qed

text \<open>
  C8 as stated fails: assigning a 2\<times>1 table to a 1\<times>1 table changes the row count of the
  latter from 1 to 2.
\<close>

theorem dimensions_counterexample:
  "Rows (tbls \<lparr>objs = [CEmpty, CEmpty, CEmpty],
               tbls = [\<lparr>Rows = 1, Cols = 1, Cells = [[0]]\<rparr>,
                       \<lparr>Rows = 2, Cols = 1, Cells = [[1], [2]]\<rparr>]\<rparr> ! 0) = 1
   \<and> Rows (tbls (CTable_assign \<lparr>objs = [CEmpty, CEmpty, CEmpty],
               tbls = [\<lparr>Rows = 1, Cols = 1, Cells = [[0]]\<rparr>,
                       \<lparr>Rows = 2, Cols = 1, Cells = [[1], [2]]\<rparr>]\<rparr> 0 1) ! 0) = 2"
  by (simp add: CTable_assign_def grid_addrs_def Clone_def new_obj_def Let_def eval_nat_numeral)

text \<open>
  C9. A \<^verbatim>\<open>CTableCell\<close> in a well-formed store renders its table, and reports as its
  width the greatest length of a line of that text (0 when there is none) and as its
  height the number of its lines, text after the last newline counting as a line.
\<close>

theorem CTableCell_measures_rendering:
  assumes ok: "heap_ok h" and a: "a < length (objs h)" and obj: "objs h ! a = CTableCell p"
    and fuel: "2 * length (objs h) \<le> n"
  shows "\<exists>s. render (Suc n) h p = Inr s
           \<and> Width (Suc (Suc n)) h a = Inr (Max (insert 0 (length ` set (text_lines s))))
           \<and> Height (Suc (Suc n)) h a = Inr (length (text_lines s))"
proof -
  have "p \<in> points_to (objs h ! a)" by (simp add: obj points_to_def)
  from heap_okD_ptr[OF ok a this] have p: "p < length (tbls h)" .
  from render_success[OF ok p fuel] obtain s where s: "render (Suc n) h p = Inr s" by blast
  have "Width (Suc (Suc n)) h a = Inr (CTableCell_Width s)"
    "Height (Suc (Suc n)) h a = Inr (CTableCell_Height s)"
    using s obj by simp_all
  with s show ?thesis
    by (simp add: CTableCell_Width_text_lines CTableCell_Height_text_lines)
qed

lemma measures_example_render:
  "render 5 \<lparr>objs = [CText [''Hi''] ALIGN_LEFT, CTableCell 0],
             tbls = [\<lparr>Rows = 1, Cols = 1, Cells = [[0]]\<rparr>]\<rparr> 0
     = Inr (terminated [''+--+'', ''|Hi|'', ''+--+''])"
  by (simp add: eval_nat_numeral Let_def maxColWidths_def maxRowHeights_def
        printBorder_def printRow_def printLine_def CText_Output_def CText_line_def
        CText_Width_def CText_Height_def terminated_def)

text \<open>The theorem at a cell that embeds the 1\<times>1 table around the text \<^verbatim>\<open>Hi\<close>.\<close>

theorem CTableCell_measures_rendering_witness:
  "heap_ok \<lparr>objs = [CText [''Hi''] ALIGN_LEFT, CTableCell 0],
            tbls = [\<lparr>Rows = 1, Cols = 1, Cells = [[0]]\<rparr>]\<rparr>
   \<and> Width 6 \<lparr>objs = [CText [''Hi''] ALIGN_LEFT, CTableCell 0],
            tbls = [\<lparr>Rows = 1, Cols = 1, Cells = [[0]]\<rparr>]\<rparr> 1 = Inr 4
   \<and> Height 6 \<lparr>objs = [CText [''Hi''] ALIGN_LEFT, CTableCell 0],
            tbls = [\<lparr>Rows = 1, Cols = 1, Cells = [[0]]\<rparr>]\<rparr> 1 = Inr 3"
proof -
  define h where "h = \<lparr>objs = [CText [''Hi''] ALIGN_LEFT, CTableCell 0],
            tbls = [\<lparr>Rows = 1, Cols = 1, Cells = [[0]]\<rparr>]\<rparr>"
  have ok: "heap_ok h"
    by (simp add: h_def heap_ok_def CTable_inv_def cells_of_def points_to_def less_Suc_eq)
  have a: "1 < length (objs h)" and obj: "objs h ! 1 = CTableCell 0"
    and fuel: "2 * length (objs h) \<le> 4"
    by (simp_all add: h_def)
  have r: "render 5 h 0 = Inr (terminated [''+--+'', ''|Hi|'', ''+--+''])"
    unfolding h_def by (rule measures_example_render)
  have tl: "text_lines (terminated [''+--+'', ''|Hi|'', ''+--+'']) = [''+--+'', ''|Hi|'', ''+--+'']"
    by (simp add: text_lines_def terminated_def)
  have n5: "Suc 4 = 5" and n6: "Suc 5 = 6" by simp_all
  from CTableCell_measures_rendering[OF ok a obj fuel]
  obtain s where s: "render 5 h 0 = Inr s"
    "Width 6 h 1 = Inr (Max (insert 0 (length ` set (text_lines s))))"
    "Height 6 h 1 = Inr (length (text_lines s))"
    unfolding n5 n6 by blast
  from s(1) r have "s = terminated [''+--+'', ''|Hi|'', ''+--+'']" by simp
  with s(2,3) tl have "Width 6 h 1 = Inr 4" "Height 6 h 1 = Inr 3" by simp_all
  with ok show ?thesis unfolding h_def by blast
qed

text \<open>
  C10 (as amended). For a table of a well-formed store whose own text and image cells
  hold no newline character in a stored line or row, rendering returns a text all of
  whose lines, border lines and content lines alike, have the same length: 1 plus the
  sum over the columns of \<open>colWidth c + 1\<close>, with \<open>colWidth c\<close> the maximum natural width in
  column \<open>c\<close> (0 for a table without rows).
\<close>

theorem rendered_block_is_rectangle:
  fixes h :: heap and t :: addr
  defines "T \<equiv> tbls h ! t"
  assumes ok: "heap_ok h" and t: "t < length (tbls h)" and fuel: "2 * length (objs h) \<le> n"
    and clean: "\<forall>r<Rows T. \<forall>c<Cols T. cell_nl_free (objs h ! (Cells T ! r ! c))"
  shows "\<exists>W colWidth s.
           (\<forall>r<Rows T. \<forall>c<Cols T. Width n h (Cells T ! r ! c) = Inr (W r c))
         \<and> (\<forall>c<Cols T. colWidth c = Max (insert 0 ((\<lambda>r. W r c) ` {..<Rows T})))
         \<and> render (Suc n) h t = Inr s
         \<and> (\<forall>l\<in>set (text_lines s). length l = 1 + (\<Sum>c<Cols T. colWidth c + 1))"
proof -
  define W where "W = (\<lambda>r c. projr (Width n h (Cells T ! r ! c)))"
  define H where "H = (\<lambda>r c. projr (Height n h (Cells T ! r ! c)))"
  define cw where "cw = (\<lambda>c. foldl (\<lambda>m r. max m (W r c)) 0 [0..<Rows T])"
  define rh where "rh = (\<lambda>r. foldl (\<lambda>m c. max m (H r c)) 0 [0..<Cols T])"
  define out where "out = (\<lambda>r c. projr (Output n h (Cells T ! r ! c) (rh r) (cw c)))"
  define L where "L = spec_lines (Rows T) (Cols T) cw rh out"
  have cells: "cell_succeeds (Width n h) (Height n h) (Output n h) (Cells T ! r ! c)"
    if "r < Rows T" "c < Cols T" for r c
    unfolding T_def by (rule table_cells_succeed[OF ok t fuel]) (use that in \<open>simp_all add: T_def\<close>)
  have L1: "layout T (Width n h) (Height n h) (Output n h) = Inr (terminated L)"
    unfolding W_def H_def cw_def rh_def out_def L_def by (rule layout_success(1)) (rule cells)
  have L2: "Width n h (Cells T ! r ! c) = Inr (W r c)" if "r < Rows T" "c < Cols T" for r c
    unfolding W_def by (rule layout_success(2)[OF _ that]) (rule cells)
  have L4: "Output n h (Cells T ! r ! c) (rh r) (cw c) = Inr (out r c)"
    if "r < Rows T" "c < Cols T" for r c
    unfolding W_def H_def cw_def rh_def out_def
    by (rule layout_success(4)[OF _ that]) (rule cells)
  have piece: "length (out r c ! v) = cw c \<and> nl_free (out r c ! v)"
    if rc: "r < Rows T" "c < Cols T" and v: "v < rh r" for r c v
  proof -
    from Output_shape[OF L4[OF rc]]
    have len: "length (out r c) = rh r" and all: "\<forall>l\<in>set (out r c). length l = cw c" by blast+
    from clean rc have "cell_nl_free (objs h ! (Cells T ! r ! c))" by blast
    from Output_nl_free[OF L4[OF rc] this] have "list_all nl_free (out r c)" .
    then have "nl_free (out r c ! v)" using v len by (simp add: list_all_length)
    moreover have "length (out r c ! v) = cw c" using all len v nth_mem by metis
    ultimately show ?thesis by blast
  qed
  have line: "length l = 1 + (\<Sum>c<Cols T. cw c + 1) \<and> nl_free l" if "l \<in> set L" for l
  proof -
    from spec_lines_cases[OF that[unfolded L_def]]
    show ?thesis
    proof
      assume "l = spec_border (Cols T) cw"
      then show ?thesis by (simp add: length_spec_border nl_free_spec_border)
    next
      assume "\<exists>r<Rows T. \<exists>v<rh r. l = spec_content_line (Cols T) (\<lambda>c. out r c ! v)"
      then obtain r v where r: "r < Rows T" and v: "v < rh r"
        and l: "l = spec_content_line (Cols T) (\<lambda>c. out r c ! v)" by blast
      have "length l = 1 + (\<Sum>c<Cols T. cw c + 1)"
        unfolding l by (rule length_spec_content_line) (use piece[OF r _ v] in blast)
      moreover have "nl_free l"
        unfolding l by (rule nl_free_spec_content_line) (use piece[OF r _ v] in blast)
      ultimately show ?thesis by blast
    qed
  qed
  have "list_all nl_free L" unfolding list_all_iff using line by blast
  then have tl: "text_lines (terminated L) = L" by (rule text_lines_terminated)
  have r: "render (Suc n) h t = Inr (terminated L)"
    unfolding render_Suc using L1 by (simp add: T_def)
  have cwmax: "cw c = Max (insert 0 ((\<lambda>r. W r c) ` {..<Rows T}))" for c
  proof -
    have "set [0..<Rows T] = {..<Rows T}" by auto
    then show ?thesis unfolding cw_def by (simp add: foldl_max_Max)
  qed
  show ?thesis
  proof (intro exI[of _ W] exI[of _ cw] exI[of _ "terminated L"] conjI allI impI ballI)
    show "render (Suc n) h t = Inr (terminated L)" by (rule r)
    show "cw c = Max (insert 0 ((\<lambda>r. W r c) ` {..<Rows T}))" for c by (rule cwmax)
    show "Width n h (Cells T ! r ! c) = Inr (W r c)" if "r < Rows T" "c < Cols T" for r c
      by (rule L2[OF that])
    fix l assume "l \<in> set (text_lines (terminated L))"
    then have "l \<in> set L" by (simp add: tl)
    then show "length l = 1 + (\<Sum>c<Cols T. cw c + 1)" using line by blast
  qed
qed

lemma rectangle_example_render:
  "render 3 \<lparr>objs = [CText [''Hi''] ALIGN_LEFT], tbls = [\<lparr>Rows = 1, Cols = 1, Cells = [[0]]\<rparr>]\<rparr> 0
     = Inr (terminated [''+--+'', ''|Hi|'', ''+--+''])"
  by (simp add: eval_nat_numeral Let_def maxColWidths_def maxRowHeights_def
        printBorder_def printRow_def printLine_def CText_Output_def CText_line_def
        CText_Width_def CText_Height_def terminated_def)

text \<open>
  The theorem at the 1\<times>1 table around the text \<^verbatim>\<open>Hi\<close>: its three lines have 4 characters
  each.
\<close>

theorem rendered_block_is_rectangle_witness:
  "heap_ok \<lparr>objs = [CText [''Hi''] ALIGN_LEFT], tbls = [\<lparr>Rows = 1, Cols = 1, Cells = [[0]]\<rparr>]\<rparr>
   \<and> cell_nl_free (CText [''Hi''] ALIGN_LEFT)
   \<and> (\<exists>s. render 3 \<lparr>objs = [CText [''Hi''] ALIGN_LEFT],
                      tbls = [\<lparr>Rows = 1, Cols = 1, Cells = [[0]]\<rparr>]\<rparr> 0 = Inr s
        \<and> text_lines s = [''+--+'', ''|Hi|'', ''+--+'']
        \<and> list_all (\<lambda>l. length l = 4) (text_lines s))"
proof -
  define h where "h = \<lparr>objs = [CText [''Hi''] ALIGN_LEFT], tbls = [\<lparr>Rows = 1, Cols = 1, Cells = [[0]]\<rparr>]\<rparr>"
  have ok: "heap_ok h"
    by (simp add: h_def heap_ok_def CTable_inv_def cells_of_def points_to_def)
  have t: "0 < length (tbls h)" and fuel: "2 * length (objs h) \<le> 2" by (simp_all add: h_def)
  have cl: "cell_nl_free (CText [''Hi''] ALIGN_LEFT)" by (simp add: cell_nl_free_def)
  then have clean: "\<forall>r<Rows (tbls h ! 0). \<forall>c<Cols (tbls h ! 0).
      cell_nl_free (objs h ! (Cells (tbls h ! 0) ! r ! c))"
    by (simp add: h_def)
  have r: "render 3 h 0 = Inr (terminated [''+--+'', ''|Hi|'', ''+--+''])"
    unfolding h_def by (rule rectangle_example_render)
  have tl: "text_lines (terminated [''+--+'', ''|Hi|'', ''+--+'']) = [''+--+'', ''|Hi|'', ''+--+'']"
    by (simp add: text_lines_def terminated_def)
  have n3: "Suc 2 = 3" by simp
  from rendered_block_is_rectangle[OF ok t fuel clean]
  obtain W colWidth s where
    W: "\<forall>r<Rows (tbls h ! 0). \<forall>c<Cols (tbls h ! 0).
          Width 2 h (Cells (tbls h ! 0) ! r ! c) = Inr (W r c)"
    and cw: "\<forall>c<Cols (tbls h ! 0). colWidth c = Max (insert 0 ((\<lambda>r. W r c) ` {..<Rows (tbls h ! 0)}))"
    and s: "render 3 h 0 = Inr s"
    and len: "\<forall>l\<in>set (text_lines s). length l = 1 + (\<Sum>c<Cols (tbls h ! 0). colWidth c + 1)"
    unfolding n3 by blast
  from W have "Width 2 h 0 = Inr (W 0 0)" by (simp add: h_def)
  then have "W 0 0 = 2" by (simp add: h_def eval_nat_numeral CText_Width_def)
  with cw have "colWidth 0 = 2" by (simp add: h_def lessThan_Suc)
  with len have "\<forall>l\<in>set (text_lines s). length l = 4" by (simp add: h_def lessThan_Suc)
  then have all: "list_all (\<lambda>l. length l = 4) (text_lines s)" by (simp add: list_all_iff)
  from s r have "s = terminated [''+--+'', ''|Hi|'', ''+--+'']" by simp
  with tl have "text_lines s = [''+--+'', ''|Hi|'', ''+--+'']" by simp
  with ok cl s all show ?thesis unfolding h_def by blast
qed

text \<open>
  C10 as stated fails: an image row may hold a newline. The 1\<times>1 table around the image
  with the single row \<^verbatim>\<open>"a\nb"\<close> renders as four lines of 5, 2, 2 and 5 characters.
\<close>

theorem rectangle_counterexample:
  "render 3 \<lparr>objs = [CImage [[CHR ''a'', newline, CHR ''b'']]],
             tbls = [\<lparr>Rows = 1, Cols = 1, Cells = [[0]]\<rparr>]\<rparr> 0
     = Inr (''+---+'' @ [newline] @ ''|a'' @ [newline] @ ''b|'' @ [newline] @ ''+---+'' @ [newline])
   \<and> text_lines (''+---+'' @ [newline] @ ''|a'' @ [newline] @ ''b|'' @ [newline] @ ''+---+'' @ [newline])
     = [''+---+'', ''|a'', ''b|'', ''+---+'']"
  by (simp add: eval_nat_numeral Let_def maxColWidths_def maxRowHeights_def
        printBorder_def printRow_def printLine_def CImage_Width_def CImage_Height_def
        CImage_Output_def CImage_loop.simps CImage_put_def string_replace_def
        text_lines_def)

end
